theory Spec2Isabelle
  imports Main "HOL-Library.Word"
begin

unbundle bit_operations_syntax

section \<open>Values of the JavaScript program\<close>

text \<open>
  The program is \<^verbatim>\<open>app.js\<close>. A \<^verbatim>\<open>Uint8Array\<close> (and the contents of an
  \<^verbatim>\<open>ArrayBuffer\<close>) is a list of 8-bit words. A JavaScript string is a list of UTF-16
  code units. A thrown exception or a rejected promise is the \<open>Inl\<close> branch of a sum.
\<close>

type_synonym byte = "8 word"
type_synonym bytes = "byte list"
type_synonym jsstring = "16 word list"

text \<open>
  The exceptions the program can meet: \<open>InvalidCharacterError\<close> is the DOMException of
  \<^verbatim>\<open>atob\<close> and \<^verbatim>\<open>btoa\<close>, \<open>RangeError\<close> the one of \<^verbatim>\<open>TypedArray.prototype.set\<close>,
  \<open>DataError\<close> the one of \<^verbatim>\<open>crypto.subtle.importKey\<close>, \<open>OperationError\<close> the one of
  \<^verbatim>\<open>crypto.subtle.decrypt\<close>, and \<open>KemError\<close> stands for whatever the McEliece library
  throws.
\<close>

datatype error = InvalidCharacterError | RangeError | DataError | OperationError | KemError

definition bindE :: "error + 'a \<Rightarrow> ('a \<Rightarrow> error + 'b) \<Rightarrow> error + 'b" where
  "bindE m f = (case m of Inl e \<Rightarrow> Inl e | Inr x \<Rightarrow> f x)"

section \<open>The platform's base64: \<^verbatim>\<open>btoa\<close> and \<^verbatim>\<open>atob\<close>\<close>

definition base64_alphabet :: "16 word list" where
  "base64_alphabet =
     map of_char ''ABCDEFGHIJKLMNOPQRSTUVWXYZabcdefghijklmnopqrstuvwxyz0123456789+/''"

definition sextet_char :: "nat \<Rightarrow> 16 word" where
  "sextet_char n = base64_alphabet ! n"

fun index_of :: "'a \<Rightarrow> 'a list \<Rightarrow> nat option" where
  "index_of c [] = None"
| "index_of c (x # xs) = (if c = x then Some 0 else map_option Suc (index_of c xs))"

definition char_sextet :: "16 word \<Rightarrow> nat option" where
  "char_sextet c = index_of c base64_alphabet"

text \<open>
  Base64 encoding of a sequence of octets (RFC 4648, section 4): three octets give four
  characters, a final group of one or two octets is padded with \<^verbatim>\<open>=\<close> (code unit 0x3D).
\<close>

fun base64_encode :: "nat list \<Rightarrow> jsstring" where
  "base64_encode (a # b # c # rest) =
     sextet_char (a div 4) # sextet_char ((a mod 4) * 16 + b div 16) #
     sextet_char ((b mod 16) * 4 + c div 64) # sextet_char (c mod 64) # base64_encode rest"
| "base64_encode [a, b] =
     [sextet_char (a div 4), sextet_char ((a mod 4) * 16 + b div 16),
      sextet_char ((b mod 16) * 4), 0x3D]"
| "base64_encode [a] = [sextet_char (a div 4), sextet_char ((a mod 4) * 16), 0x3D, 0x3D]"
| "base64_encode [] = []"

text \<open>
  \<^verbatim>\<open>btoa(data)\<close> throws \<open>InvalidCharacterError\<close> when a code unit of \<open>data\<close> is above
  0xFF, and otherwise encodes the code units as octets.
\<close>

definition btoa :: "jsstring \<Rightarrow> error + jsstring" where
  "btoa data =
     (if list_ex (\<lambda>c. 0xFF < c) data then Inl InvalidCharacterError
      else Inr (base64_encode (map unat data)))"

text \<open>
  \<^verbatim>\<open>atob(data)\<close> is the forgiving-base64 decode of the HTML standard: ASCII whitespace is
  removed; when the length is then a multiple of four, one or two trailing \<^verbatim>\<open>=\<close> are
  removed; a length of 1 modulo 4 or a character outside the alphabet is a failure;
  every four characters give three octets, and the 12 or 18 bits left at the end give
  one or two octets, the last four or two bits being dropped.
\<close>

definition ascii_whitespace :: "16 word \<Rightarrow> bool" where
  "ascii_whitespace c \<longleftrightarrow> c = 0x09 \<or> c = 0x0A \<or> c = 0x0C \<or> c = 0x0D \<or> c = 0x20"

definition strip_padding :: "jsstring \<Rightarrow> jsstring" where
  "strip_padding d =
     (if length d mod 4 = 0 \<and> d \<noteq> [] \<and> last d = 0x3D
      then (if butlast d \<noteq> [] \<and> last (butlast d) = 0x3D then butlast (butlast d)
            else butlast d)
      else d)"

fun decode_sextets :: "nat list \<Rightarrow> nat list" where
  "decode_sextets (a # b # c # d # rest) =
     (a * 4 + b div 16) # ((b mod 16) * 16 + c div 4) # ((c mod 4) * 64 + d) #
     decode_sextets rest"
| "decode_sextets [a, b, c] = [a * 4 + b div 16, (b mod 16) * 16 + c div 4]"
| "decode_sextets [a, b] = [a * 4 + b div 16]"
| "decode_sextets [a] = []"
| "decode_sextets [] = []"

definition forgiving_base64_decode :: "jsstring \<Rightarrow> nat list option" where
  "forgiving_base64_decode data =
     (let d = strip_padding (filter (\<lambda>c. \<not> ascii_whitespace c) data)
      in if length d mod 4 = 1 then None
         else if list_ex (\<lambda>c. char_sextet c = None) d then None
         else Some (decode_sextets (map (\<lambda>c. the (char_sextet c)) d)))"

definition atob :: "jsstring \<Rightarrow> error + jsstring" where
  "atob data =
     (case forgiving_base64_decode data of
        None \<Rightarrow> Inl InvalidCharacterError
      | Some octets \<Rightarrow> Inr (map of_nat octets))"

section \<open>Utility functions of \<^verbatim>\<open>app.js\<close>\<close>

text \<open>
  \<^verbatim>\<open>arrayToBase64\<close>: every byte becomes the code unit \<^verbatim>\<open>String.fromCharCode(byte)\<close>, the
  code units are joined and handed to \<^verbatim>\<open>btoa\<close>.
\<close>

definition arrayToBase64 :: "bytes \<Rightarrow> error + jsstring" where
  "arrayToBase64 uint8Array =
     (let binaryString = map (\<lambda>byte. (ucast byte :: 16 word)) uint8Array
      in btoa binaryString)"

text \<open>
  \<^verbatim>\<open>base64ToArray\<close>: \<^verbatim>\<open>atob\<close>, then every \<^verbatim>\<open>charCodeAt(i)\<close> is stored into a fresh
  \<^verbatim>\<open>Uint8Array\<close> (a store keeps the low eight bits).
\<close>

definition base64ToArray :: "jsstring \<Rightarrow> error + bytes" where
  "base64ToArray base64 =
     bindE (atob base64) (\<lambda>binaryString. Inr (map (\<lambda>c. (ucast c :: byte)) binaryString))"

subsection \<open>Typed arrays and 32-bit integer operators\<close>

text \<open>
  \<^verbatim>\<open>target.set(source, offset)\<close> throws a \<open>RangeError\<close> when the source does not fit
  behind the offset, and otherwise overwrites that part of the target.
\<close>

definition typedArray_set :: "bytes \<Rightarrow> bytes \<Rightarrow> nat \<Rightarrow> error + bytes" where
  "typedArray_set target source offset =
     (if length target < length source + offset then Inl RangeError
      else Inr (take offset target @ source @ drop (offset + length source) target))"

text \<open>
  \<^verbatim>\<open>a.slice(start, end)\<close>: a negative index counts from the end, every index is clamped
  to the array, and an end before the start gives the empty array. \<open>None\<close> is an
  omitted \<^verbatim>\<open>end\<close>.
\<close>

definition relative_index :: "nat \<Rightarrow> int \<Rightarrow> nat" where
  "relative_index len i = (if i < 0 then nat (max (int len + i) 0) else min (nat i) len)"

definition slice :: "'a list \<Rightarrow> int \<Rightarrow> int option \<Rightarrow> 'a list" where
  "slice a start end =
     (let len = length a;
          k = relative_index len start;
          final = (case end of None \<Rightarrow> len | Some e \<Rightarrow> relative_index len e)
      in take (final - k) (drop k a))"

text \<open>
  The operators \<^verbatim>\<open>>>\<close>, \<^verbatim>\<open><<\<close>, \<^verbatim>\<open>&\<close> and \<^verbatim>\<open>|\<close> convert their operands with
  \<open>ToInt32\<close> and give a signed 32-bit result, read here with \<open>sint\<close>. Reading an
  element past the end of a typed array gives \<^verbatim>\<open>undefined\<close>, which \<open>ToInt32\<close> turns
  into 0.
\<close>

definition ToInt32 :: "int \<Rightarrow> 32 word" where
  "ToInt32 n = word_of_int n"

definition element_ToInt32 :: "bytes \<Rightarrow> nat \<Rightarrow> 32 word" where
  "element_ToInt32 a i = (if i < length a then ucast (a ! i) else 0)"

subsection \<open>\<^verbatim>\<open>packageCiphertext\<close> and \<^verbatim>\<open>unpackageCiphertext\<close>\<close>

text \<open>
  \<open>combinedBytes\<close> is the array \<^verbatim>\<open>combined\<close> that \<^verbatim>\<open>packageCiphertext\<close> builds (lines
  47 to 67): zero-filled, the four length bytes stored, then the three \<^verbatim>\<open>set\<close> calls.
\<close>

definition combinedBytes :: "bytes \<Rightarrow> bytes \<Rightarrow> bytes \<Rightarrow> error + bytes" where
  "combinedBytes kemCiphertext iv encryptedData =
     (let encryptedArray = encryptedData;
          kemLength = length kemCiphertext;
          totalLength = 4 + kemLength + 12 + length encryptedArray;
          combined = replicate totalLength (0 :: byte);
          combined = combined[0 := ucast (signed_drop_bit 24 (ToInt32 (int kemLength)) AND 0xff)];
          combined = combined[1 := ucast (signed_drop_bit 16 (ToInt32 (int kemLength)) AND 0xff)];
          combined = combined[2 := ucast (signed_drop_bit 8 (ToInt32 (int kemLength)) AND 0xff)];
          combined = combined[3 := ucast (ToInt32 (int kemLength) AND 0xff)]
      in bindE (typedArray_set combined kemCiphertext 4) (\<lambda>combined.
         bindE (typedArray_set combined iv (4 + kemLength)) (\<lambda>combined.
         typedArray_set combined encryptedArray (4 + kemLength + 12))))"

definition packageCiphertext :: "bytes \<Rightarrow> bytes \<Rightarrow> bytes \<Rightarrow> error + jsstring" where
  "packageCiphertext kemCiphertext iv encryptedData =
     bindE (combinedBytes kemCiphertext iv encryptedData) arrayToBase64"

text \<open>
  \<open>readKemLength\<close> is line 79, \<open>unpackFields\<close> lines 82 to 86. The result of the
  bitwise OR is a signed 32-bit integer; the additions \<^verbatim>\<open>4 + kemLength\<close> are exact.
\<close>

definition readKemLength :: "bytes \<Rightarrow> int" where
  "readKemLength combined =
     sint (push_bit 24 (element_ToInt32 combined 0) OR push_bit 16 (element_ToInt32 combined 1)
           OR push_bit 8 (element_ToInt32 combined 2) OR element_ToInt32 combined 3)"

record envelope =
  kemCiphertext :: bytes
  iv :: bytes
  encryptedData :: bytes

definition unpackFields :: "bytes \<Rightarrow> envelope" where
  "unpackFields combined =
     (let kemLength = readKemLength combined
      in \<lparr> kemCiphertext = slice combined 4 (Some (4 + kemLength)),
           iv = slice combined (4 + kemLength) (Some (4 + kemLength + 12)),
           encryptedData = slice combined (4 + kemLength + 12) None \<rparr>)"

definition unpackageCiphertext :: "jsstring \<Rightarrow> error + envelope" where
  "unpackageCiphertext base64Package =
     bindE (base64ToArray base64Package) (\<lambda>combined. Inr (unpackFields combined))"

section \<open>The platform's text codecs: \<^verbatim>\<open>TextEncoder\<close> and \<^verbatim>\<open>TextDecoder\<close>\<close>

text \<open>
  \<^verbatim>\<open>new TextEncoder().encode(s)\<close> first reads the string as scalar values: a high
  surrogate followed by a low surrogate is one supplementary code point, any other
  surrogate is replaced by U+FFFD. Every scalar value is then written in UTF-8.
\<close>

definition is_high_surrogate :: "16 word \<Rightarrow> bool" where
  "is_high_surrogate u \<longleftrightarrow> 0xD800 \<le> unat u \<and> unat u \<le> 0xDBFF"

definition is_low_surrogate :: "16 word \<Rightarrow> bool" where
  "is_low_surrogate u \<longleftrightarrow> 0xDC00 \<le> unat u \<and> unat u \<le> 0xDFFF"

definition lone_unit :: "16 word \<Rightarrow> nat" where
  "lone_unit u = (if is_high_surrogate u \<or> is_low_surrogate u then 0xFFFD else unat u)"

fun utf16_scalars :: "jsstring \<Rightarrow> nat list" where
  "utf16_scalars [] = []"
| "utf16_scalars [u] = [lone_unit u]"
| "utf16_scalars (u # v # rest) =
     (if is_high_surrogate u \<and> is_low_surrogate v
      then (0x10000 + (unat u - 0xD800) * 0x400 + (unat v - 0xDC00)) # utf16_scalars rest
      else lone_unit u # utf16_scalars (v # rest))"

definition utf8_encode_scalar :: "nat \<Rightarrow> nat list" where
  "utf8_encode_scalar cp =
     (if cp \<le> 0x7F then [cp]
      else if cp \<le> 0x7FF then [0xC0 + cp div 64, 0x80 + cp mod 64]
      else if cp \<le> 0xFFFF then [0xE0 + cp div 4096, 0x80 + cp div 64 mod 64, 0x80 + cp mod 64]
      else [0xF0 + cp div 262144, 0x80 + cp div 4096 mod 64, 0x80 + cp div 64 mod 64,
            0x80 + cp mod 64])"

definition TextEncoder_encode :: "jsstring \<Rightarrow> bytes" where
  "TextEncoder_encode s = map of_nat (concat (map utf8_encode_scalar (utf16_scalars s)))"

text \<open>
  \<^verbatim>\<open>new TextDecoder().decode(data)\<close> runs the UTF-8 decoder of the Encoding standard in
  replacement mode (\<^verbatim>\<open>fatal\<close> is false): every error emits U+FFFD and decoding goes
  on. The decoder's variables are the code point being built, the bytes seen, the bytes
  needed and the bounds of the next byte; an unexpected byte inside a sequence is put
  back and read again from the initial state. \<open>byte mod 32\<close> is \<^verbatim>\<open>byte & 0x1F\<close>, and
  \<open>cp * 64 + byte mod 64\<close> is \<^verbatim>\<open>(cp << 6) | (byte & 0x3F)\<close>.
\<close>

function utf8_decoder :: "nat \<Rightarrow> nat \<Rightarrow> nat \<Rightarrow> nat \<Rightarrow> nat \<Rightarrow> bytes \<Rightarrow> nat list" where
  "utf8_decoder cp seen needed lower upper [] = (if needed \<noteq> 0 then [0xFFFD] else [])"
| "utf8_decoder cp seen needed lower upper (b # bs) =
     (let byte = unat b in
      if needed = 0 then
        (if byte \<le> 0x7F then byte # utf8_decoder cp seen needed lower upper bs
         else if 0xC2 \<le> byte \<and> byte \<le> 0xDF then
           utf8_decoder (byte mod 32) seen 1 lower upper bs
         else if 0xE0 \<le> byte \<and> byte \<le> 0xEF then
           utf8_decoder (byte mod 16) seen 2
             (if byte = 0xE0 then 0xA0 else lower) (if byte = 0xED then 0x9F else upper) bs
         else if 0xF0 \<le> byte \<and> byte \<le> 0xF4 then
           utf8_decoder (byte mod 8) seen 3
             (if byte = 0xF0 then 0x90 else lower) (if byte = 0xF4 then 0x8F else upper) bs
         else 0xFFFD # utf8_decoder cp seen needed lower upper bs)
      else if \<not> (lower \<le> byte \<and> byte \<le> upper) then
        0xFFFD # utf8_decoder 0 0 0 0x80 0xBF (b # bs)
      else if seen + 1 \<noteq> needed then
        utf8_decoder (cp * 64 + byte mod 64) (seen + 1) needed 0x80 0xBF bs
      else (cp * 64 + byte mod 64) # utf8_decoder 0 0 0 0x80 0xBF bs)"
  by pat_completeness auto
termination
  by (relation "measure (\<lambda>(cp, seen, needed, lower, upper, bs).
        2 * length bs + (if needed = 0 then 0 else 1))") auto

text \<open>
  The decoder's \<^verbatim>\<open>ignoreBOM\<close> is false: a first code point U+FEFF is dropped. A code
  point above U+FFFF becomes a surrogate pair of the resulting string.
\<close>

definition strip_bom :: "nat list \<Rightarrow> nat list" where
  "strip_bom cps = (case cps of [] \<Rightarrow> [] | c # rest \<Rightarrow> if c = 0xFEFF then rest else cps)"

definition utf16_units :: "nat \<Rightarrow> jsstring" where
  "utf16_units cp =
     (if cp < 0x10000 then [of_nat cp]
      else [of_nat (0xD800 + (cp - 0x10000) div 0x400), of_nat (0xDC00 + (cp - 0x10000) mod 0x400)])"

definition TextDecoder_decode :: "bytes \<Rightarrow> jsstring" where
  "TextDecoder_decode data =
     concat (map utf16_units (strip_bom (utf8_decoder 0 0 0 0x80 0xBF data)))"

section \<open>Cryptographic functions of \<^verbatim>\<open>app.js\<close>\<close>

text \<open>
  The McEliece library (\<^verbatim>\<open>mceliece.keyPair\<close>, \<^verbatim>\<open>mceliece.encrypt\<close>,
  \<^verbatim>\<open>mceliece.decrypt\<close>) and AES-GCM of Web Crypto are not part of the repository: they
  are parameters of the model, and each may throw. The library's own randomness is the
  argument \<open>coins\<close>. \<^verbatim>\<open>mceliece.keyPair\<close> gives the private and the public key,
  \<^verbatim>\<open>mceliece.encrypt\<close> the KEM ciphertext (its \<^verbatim>\<open>cyphertext\<close>) and the
  secret.
\<close>

record primitives =
  mceliece_keyPair :: "bytes \<Rightarrow> error + bytes \<times> bytes"
  mceliece_encrypt :: "bytes \<Rightarrow> bytes \<Rightarrow> error + bytes \<times> bytes"
  mceliece_decrypt :: "bytes \<Rightarrow> bytes \<Rightarrow> error + bytes"
  aes_gcm_encrypt :: "bytes \<Rightarrow> bytes \<Rightarrow> bytes \<Rightarrow> error + bytes"
  aes_gcm_decrypt :: "bytes \<Rightarrow> bytes \<Rightarrow> bytes \<Rightarrow> error + bytes"

text \<open>
  \<^verbatim>\<open>crypto.subtle.importKey('raw', secret, {name: 'AES-GCM'}, ...)\<close> rejects with a
  \<open>DataError\<close> unless the key has 128, 192 or 256 bits. The key usages the program
  passes match the calls it makes, so the imported key is modelled by its bytes.
\<close>

definition importKey :: "bytes \<Rightarrow> error + bytes" where
  "importKey keyData =
     (if length keyData = 16 \<or> length keyData = 24 \<or> length keyData = 32 then Inr keyData
      else Inl DataError)"

text \<open>
  \<^verbatim>\<open>crypto.getRandomValues(new Uint8Array(n))\<close> fills the array from the platform's
  random source. The source is the stream of bytes it will deliver; a call consumes
  the bytes it returns.
\<close>

type_synonym entropy = "nat \<Rightarrow> byte"

definition getRandomValues :: "nat \<Rightarrow> entropy \<Rightarrow> bytes \<times> entropy" where
  "getRandomValues n source = (map source [0..<n], \<lambda>i. source (n + i))"

text \<open>
  \<^verbatim>\<open>encryptMessage\<close> returns its result and the random source as it leaves it.
\<close>

definition encryptMessage ::
  "primitives \<Rightarrow> jsstring \<Rightarrow> jsstring \<Rightarrow> bytes \<Rightarrow> entropy \<Rightarrow> (error + jsstring) \<times> entropy" where
  "encryptMessage P publicKeyBase64 plaintext coins source =
     (case base64ToArray publicKeyBase64 of
        Inl e \<Rightarrow> (Inl e, source)
      | Inr publicKey \<Rightarrow>
     (case mceliece_encrypt P publicKey coins of
        Inl e \<Rightarrow> (Inl e, source)
      | Inr encapsulation \<Rightarrow>
     (let kemCiphertext = fst encapsulation;
          secret = snd encapsulation
      in case importKey secret of
        Inl e \<Rightarrow> (Inl e, source)
      | Inr aesKey \<Rightarrow>
     (let (iv, source') = getRandomValues 12 source;
          plaintextBytes = TextEncoder_encode plaintext
      in (bindE (aes_gcm_encrypt P aesKey iv plaintextBytes) (\<lambda>encryptedData.
          packageCiphertext kemCiphertext iv encryptedData), source')))))"

text \<open>
  \<^verbatim>\<open>decryptMessage\<close>, with the calls it makes to the cryptographic primitives, in order.
\<close>

datatype call = KemDecrypt bytes bytes | ImportKey bytes | AesGcmDecrypt bytes bytes bytes

definition decryptMessage_traced ::
  "primitives \<Rightarrow> jsstring \<Rightarrow> jsstring \<Rightarrow> call list \<times> (error + jsstring)" where
  "decryptMessage_traced P privateKeyBase64 ciphertextPackage =
     (case unpackageCiphertext ciphertextPackage of
        Inl e \<Rightarrow> ([], Inl e)
      | Inr env \<Rightarrow>
     (case base64ToArray privateKeyBase64 of
        Inl e \<Rightarrow> ([], Inl e)
      | Inr privateKey \<Rightarrow>
     (let calls = [KemDecrypt (kemCiphertext env) privateKey]
      in case mceliece_decrypt P (kemCiphertext env) privateKey of
        Inl e \<Rightarrow> (calls, Inl e)
      | Inr secret \<Rightarrow>
     (let calls = calls @ [ImportKey secret]
      in case importKey secret of
        Inl e \<Rightarrow> (calls, Inl e)
      | Inr aesKey \<Rightarrow>
     (let calls = calls @ [AesGcmDecrypt aesKey (iv env) (encryptedData env)]
      in case aes_gcm_decrypt P aesKey (iv env) (encryptedData env) of
        Inl e \<Rightarrow> (calls, Inl e)
      | Inr decryptedData \<Rightarrow> (calls, Inr (TextDecoder_decode decryptedData)))))))"

definition decryptMessage :: "primitives \<Rightarrow> jsstring \<Rightarrow> jsstring \<Rightarrow> error + jsstring" where
  "decryptMessage P privateKeyBase64 ciphertextPackage =
     snd (decryptMessage_traced P privateKeyBase64 ciphertextPackage)"

text \<open>
  \<^verbatim>\<open>generateKeyPair\<close> and the object it returns.
\<close>

record keyPair =
  privateKey :: jsstring
  publicKey :: jsstring
  privateKeySize :: nat
  publicKeySize :: nat

definition generateKeyPair :: "primitives \<Rightarrow> bytes \<Rightarrow> error + keyPair" where
  "generateKeyPair P coins =
     bindE (mceliece_keyPair P coins) (\<lambda>(privateKey, publicKey).
     bindE (arrayToBase64 privateKey) (\<lambda>privateKeyBase64.
     bindE (arrayToBase64 publicKey) (\<lambda>publicKeyBase64.
     Inr \<lparr> privateKey = privateKeyBase64, publicKey = publicKeyBase64,
           privateKeySize = length privateKey, publicKeySize = length publicKey \<rparr>)))"

section \<open>The click handler of the decrypt button\<close>

text \<open>
  \<^verbatim>\<open>String.prototype.trim\<close> removes white space and line terminators from both ends.
\<close>

definition js_whitespace :: "16 word \<Rightarrow> bool" where
  "js_whitespace c \<longleftrightarrow>
     c = 0x09 \<or> c = 0x0A \<or> c = 0x0B \<or> c = 0x0C \<or> c = 0x0D \<or> c = 0x20 \<or> c = 0xA0 \<or>
     c = 0x1680 \<or> (0x2000 \<le> c \<and> c \<le> 0x200A) \<or> c = 0x2028 \<or> c = 0x2029 \<or> c = 0x202F \<or>
     c = 0x205F \<or> c = 0x3000 \<or> c = 0xFEFF"

definition trim :: "jsstring \<Rightarrow> jsstring" where
  "trim s = rev (dropWhile js_whitespace (rev (dropWhile js_whitespace s)))"

text \<open>
  The part of the page the handler reads and writes. The status messages are, in the
  order of the constructors: "Please provide a private key", "Please enter the
  ciphertext to decrypt", "Decrypted in ...s!" with the elapsed time, and "Decryption
  failed. Wrong key or corrupted data.". \<open>console\<close> is what \<^verbatim>\<open>console.error\<close> has
  logged. The page is the one the handler leaves when it has finished.
\<close>

datatype status_message =
  ProvidePrivateKey | EnterCiphertext | DecryptedIn string | DecryptionFailed

datatype status_type = StatusLoading | StatusSuccess | StatusError

record page =
  decryptPrivkey_value :: jsstring
  ciphertextInput_value :: jsstring
  decryptStatus :: "(status_message \<times> status_type) option"
  decryptedText_value :: jsstring
  decryptedOutput_hidden :: bool
  console :: "error list"

definition decryptBtn_click :: "primitives \<Rightarrow> string \<Rightarrow> page \<Rightarrow> page" where
  "decryptBtn_click P elapsed pg =
     (let privateKey = trim (decryptPrivkey_value pg);
          ciphertext = trim (ciphertextInput_value pg)
      in if privateKey = [] then pg\<lparr>decryptStatus := Some (ProvidePrivateKey, StatusError)\<rparr>
         else if ciphertext = [] then pg\<lparr>decryptStatus := Some (EnterCiphertext, StatusError)\<rparr>
         else (case decryptMessage P privateKey ciphertext of
                 Inr decrypted \<Rightarrow>
                   pg\<lparr>decryptedText_value := decrypted, decryptedOutput_hidden := False,
                      decryptStatus := Some (DecryptedIn elapsed, StatusSuccess)\<rparr>
               | Inl error \<Rightarrow>
                   pg\<lparr>console := console pg @ [error],
                      decryptStatus := Some (DecryptionFailed, StatusError),
                      decryptedOutput_hidden := True\<rparr>))"

section \<open>Notions the properties are stated with\<close>

text \<open>The four bytes \<^verbatim>\<open>packageCiphertext\<close> stores at lines 55 to 58.\<close>

definition kemLengthHeader :: "nat \<Rightarrow> bytes" where
  "kemLengthHeader kemLength =
     [ucast (signed_drop_bit 24 (ToInt32 (int kemLength)) AND 0xff),
      ucast (signed_drop_bit 16 (ToInt32 (int kemLength)) AND 0xff),
      ucast (signed_drop_bit 8 (ToInt32 (int kemLength)) AND 0xff),
      ucast (ToInt32 (int kemLength) AND 0xff)]"

text \<open>Four bytes read as an unsigned 32-bit big-endian integer.\<close>

definition be32 :: "bytes \<Rightarrow> nat" where
  "be32 h = unat (h ! 0) * 2 ^ 24 + unat (h ! 1) * 2 ^ 16 + unat (h ! 2) * 2 ^ 8 + unat (h ! 3)"

text \<open>Base64 without the padding characters.\<close>

fun base64_unpadded :: "nat list \<Rightarrow> jsstring" where
  "base64_unpadded (a # b # c # rest) =
     sextet_char (a div 4) # sextet_char ((a mod 4) * 16 + b div 16) #
     sextet_char ((b mod 16) * 4 + c div 64) # sextet_char (c mod 64) # base64_unpadded rest"
| "base64_unpadded [a, b] =
     [sextet_char (a div 4), sextet_char ((a mod 4) * 16 + b div 16),
      sextet_char ((b mod 16) * 4)]"
| "base64_unpadded [a] = [sextet_char (a div 4), sextet_char ((a mod 4) * 16)]"
| "base64_unpadded [] = []"

text \<open>
  A standard base64 string with no line wrapping (RFC 4648, section 4): groups of four
  characters of the alphabet, the last group possibly ending in one or two \<^verbatim>\<open>=\<close>.
\<close>

definition in_alphabet :: "16 word \<Rightarrow> bool" where
  "in_alphabet c \<longleftrightarrow> c \<in> set base64_alphabet"

fun standard_base64 :: "jsstring \<Rightarrow> bool" where
  "standard_base64 [] = True"
| "standard_base64 [a, b, c, d] =
     (in_alphabet a \<and> in_alphabet b \<and>
      ((c = 0x3D \<and> d = 0x3D) \<or> (in_alphabet c \<and> (d = 0x3D \<or> in_alphabet d))))"
| "standard_base64 (a # b # c # d # rest) =
     (in_alphabet a \<and> in_alphabet b \<and> in_alphabet c \<and> in_alphabet d \<and> standard_base64 rest)"
| "standard_base64 _ = False"

text \<open>A string with no unpaired surrogate.\<close>

fun well_formed_utf16 :: "jsstring \<Rightarrow> bool" where
  "well_formed_utf16 [] = True"
| "well_formed_utf16 [u] = (\<not> is_high_surrogate u \<and> \<not> is_low_surrogate u)"
| "well_formed_utf16 (u # v # rest) =
     (if is_high_surrogate u then is_low_surrogate v \<and> well_formed_utf16 rest
      else \<not> is_low_surrogate u \<and> well_formed_utf16 (v # rest))"

text \<open>
  Well-formed UTF-8 byte sequences (The Unicode Standard, table 3-7): the second byte of
  a sequence is restricted after the lead bytes E0, ED, F0 and F4.
\<close>

definition in_range :: "nat \<Rightarrow> nat \<Rightarrow> byte \<Rightarrow> bool" where
  "in_range lo hi b \<longleftrightarrow> lo \<le> unat b \<and> unat b \<le> hi"

definition second_lower :: "nat \<Rightarrow> nat" where
  "second_lower b0 = (if b0 = 0xE0 then 0xA0 else if b0 = 0xF0 then 0x90 else 0x80)"

definition second_upper :: "nat \<Rightarrow> nat" where
  "second_upper b0 = (if b0 = 0xED then 0x9F else if b0 = 0xF4 then 0x8F else 0xBF)"

fun valid_utf8 :: "bytes \<Rightarrow> bool" where
  "valid_utf8 [] = True"
| "valid_utf8 (b # bs) =
     (let b0 = unat b in
      if b0 \<le> 0x7F then valid_utf8 bs
      else if 0xC2 \<le> b0 \<and> b0 \<le> 0xDF then
        (case bs of
           b1 # r \<Rightarrow> in_range 0x80 0xBF b1 \<and> valid_utf8 r
         | _ \<Rightarrow> False)
      else if 0xE0 \<le> b0 \<and> b0 \<le> 0xEF then
        (case bs of
           b1 # b2 # r \<Rightarrow>
             in_range (second_lower b0) (second_upper b0) b1 \<and> in_range 0x80 0xBF b2 \<and>
             valid_utf8 r
         | _ \<Rightarrow> False)
      else if 0xF0 \<le> b0 \<and> b0 \<le> 0xF4 then
        (case bs of
           b1 # b2 # b3 # r \<Rightarrow>
             in_range (second_lower b0) (second_upper b0) b1 \<and> in_range 0x80 0xBF b2 \<and>
             in_range 0x80 0xBF b3 \<and> valid_utf8 r
         | _ \<Rightarrow> False)
      else False)"

text \<open>
  An instance of the external primitives, to run the program on concrete inputs: the
  secret is the first 32 bytes of the library's coins (filled up with zero bytes), the
  KEM ciphertext repeats it, and sealing appends a tag of sixteen zero bytes that
  opening checks and removes.
\<close>

definition toy_primitives :: primitives where
  "toy_primitives =
     \<lparr> mceliece_keyPair = (\<lambda>coins. Inr (coins, coins)),
       mceliece_encrypt = (\<lambda>publicKey coins.
         Inr (take 32 (coins @ replicate 32 0), take 32 (coins @ replicate 32 0))),
       mceliece_decrypt = (\<lambda>cyphertext privateKey. Inr cyphertext),
       aes_gcm_encrypt = (\<lambda>key nonce plaintext. Inr (plaintext @ replicate 16 0)),
       aes_gcm_decrypt = (\<lambda>key nonce data.
         if 16 \<le> length data \<and> drop (length data - 16) data = replicate 16 0
         then Inr (take (length data - 16) data) else Inl OperationError) \<rparr>"

text \<open>
  A second instance, whose sealing depends on the nonce: the tag is the nonce followed
  by four zero bytes, so the sealed data show under which nonce they were sealed.
\<close>

definition nonce_tagging_primitives :: primitives where
  "nonce_tagging_primitives =
     toy_primitives
     \<lparr> aes_gcm_encrypt := (\<lambda>key nonce plaintext. Inr (plaintext @ nonce @ replicate 4 0)),
       aes_gcm_decrypt := (\<lambda>key nonce data.
         if 16 \<le> length data \<and> drop (length data - 16) data = nonce @ replicate 4 0
         then Inr (take (length data - 16) data) else Inl OperationError) \<rparr>"

text \<open>A Unicode scalar value: a code point that is not a surrogate.\<close>

definition scalar_value :: "nat \<Rightarrow> bool" where
  "scalar_value c \<longleftrightarrow> c < 0x110000 \<and> \<not> (0xD800 \<le> c \<and> c \<le> 0xDFFF)"

text \<open>A random source to run the program on: it delivers the bytes 0, 1, 2, ...\<close>

definition counting_source :: entropy where
  "counting_source i = of_nat i"

section \<open>Base64: encoding followed by decoding\<close>

lemma index_of_nth: "distinct xs \<Longrightarrow> n < length xs \<Longrightarrow> index_of (xs ! n) xs = Some n"
proof (induction xs arbitrary: n)
  case Nil
  then show ?case by simp
next
  case (Cons x xs)
  show ?case
  proof (cases n)
    case 0
    then show ?thesis by simp
  next
    case (Suc m)
    with Cons.prems have "m < length xs" "xs ! m \<noteq> x" by auto
    with Cons Suc show ?thesis by simp
  qed
qed

lemma index_of_Some_mem: "index_of c xs = Some n \<Longrightarrow> n < length xs \<and> xs ! n = c"
  by (induction xs arbitrary: n) (auto split: if_splits)

lemma index_of_None_iff: "index_of c xs = None \<longleftrightarrow> c \<notin> set xs"
  by (induction xs) auto

lemma length_base64_alphabet: "length base64_alphabet = 64"
  by (simp add: base64_alphabet_def)

lemma distinct_base64_alphabet: "distinct base64_alphabet"
  by (simp add: base64_alphabet_def)

lemma char_sextet_sextet_char: "n < 64 \<Longrightarrow> char_sextet (sextet_char n) = Some n"
  unfolding char_sextet_def sextet_char_def
  by (rule index_of_nth) (simp_all add: distinct_base64_alphabet length_base64_alphabet)

lemma pad_not_in_alphabet: "0x3D \<notin> set base64_alphabet"
  by (simp add: base64_alphabet_def)

lemma whitespace_not_in_alphabet: "c \<in> set base64_alphabet \<Longrightarrow> \<not> ascii_whitespace c"
  by (auto simp add: base64_alphabet_def ascii_whitespace_def)

lemma sextet_char_in_alphabet: "n < 64 \<Longrightarrow> sextet_char n \<in> set base64_alphabet"
  by (simp add: sextet_char_def length_base64_alphabet)

lemma sextet_char_not_pad: "n < 64 \<Longrightarrow> sextet_char n \<noteq> 0x3D"
  using sextet_char_in_alphabet pad_not_in_alphabet by metis

lemma sextet_char_not_ws: "n < 64 \<Longrightarrow> \<not> ascii_whitespace (sextet_char n)"
  using sextet_char_in_alphabet whitespace_not_in_alphabet by blast

lemma pad_not_ws: "\<not> ascii_whitespace 0x3D"
  by (simp add: ascii_whitespace_def)

lemma sextet_bounds:
  assumes "a < 256" "b < 256" "c < (256::nat)"
  shows "a div 4 < 64" "(a mod 4) * 16 + b div 16 < 64" "(b mod 16) * 4 + c div 64 < 64"
    "c mod 64 < 64" "(a mod 4) * 16 < 64" "(b mod 16) * 4 < 64"
  using assms by (auto simp: less_mult_imp_div_less) (arith+)?

lemma length_base64_encode_mod4: "length (base64_encode ns) mod 4 = 0"
  by (induction ns rule: base64_encode.induct) auto

lemma base64_encode_Nil_iff: "base64_encode ns = [] \<longleftrightarrow> ns = []"
  by (induction ns rule: base64_encode.induct) auto

lemma filter_ws_base64_encode:
  "\<forall>n\<in>set ns. n < 256 \<Longrightarrow> filter (\<lambda>c. \<not> ascii_whitespace c) (base64_encode ns) = base64_encode ns"
proof -
  assume "\<forall>n\<in>set ns. n < 256"
  then have "\<forall>c\<in>set (base64_encode ns). \<not> ascii_whitespace c"
    by (induction ns rule: base64_encode.induct)
       (auto intro!: sextet_char_not_ws sextet_bounds simp: pad_not_ws)
  then show ?thesis by simp
qed

lemma strip_padding_append:
  assumes "length p mod 4 = 0" "length xs mod 4 = 0" "xs \<noteq> []"
  shows "strip_padding (p @ xs) = p @ strip_padding xs"
proof -
  from assms have "0 < length xs" "4 dvd length xs" by auto
  then have len: "4 \<le> length xs" by (simp add: dvd_imp_le)
  then have b: "butlast xs \<noteq> []" by (cases xs) auto
  have m: "length (p @ xs) mod 4 = 0" using assms by auto
  show ?thesis
    using assms b m by (simp add: strip_padding_def butlast_append)
qed

lemma strip_padding_base64_encode:
  "\<forall>n\<in>set ns. n < 256 \<Longrightarrow> strip_padding (base64_encode ns) = base64_unpadded ns"
proof (induction ns rule: base64_encode.induct)
  case (1 a b c rest)
  show ?case
  proof (cases "rest = []")
    case True
    have "sextet_char (c mod 64) \<noteq> 0x3D" by (rule sextet_char_not_pad) simp
    with True show ?thesis by (simp add: strip_padding_def)
  next
    case False
    then have ne: "base64_encode rest \<noteq> []" by (simp add: base64_encode_Nil_iff)
    have "strip_padding ([sextet_char (a div 4), sextet_char ((a mod 4) * 16 + b div 16),
        sextet_char ((b mod 16) * 4 + c div 64), sextet_char (c mod 64)] @ base64_encode rest)
      = [sextet_char (a div 4), sextet_char ((a mod 4) * 16 + b div 16),
        sextet_char ((b mod 16) * 4 + c div 64), sextet_char (c mod 64)] @ strip_padding (base64_encode rest)"
      by (rule strip_padding_append) (simp_all add: length_base64_encode_mod4 ne)
    with 1 show ?thesis by simp
  qed
next
  case (2 a b)
  have "sextet_char ((b mod 16) * 4) \<noteq> 0x3D" using 2 by (intro sextet_char_not_pad sextet_bounds) auto
  then show ?case by (simp add: strip_padding_def)
next
  case (3 a)
  have "sextet_char ((a mod 4) * 16) \<noteq> 0x3D" using 3 by (intro sextet_char_not_pad sextet_bounds) auto
  then show ?case by (simp add: strip_padding_def)
next
  case 4
  show ?case by (simp add: strip_padding_def)
qed

lemma length_base64_unpadded_mod4: "length (base64_unpadded ns) mod 4 \<noteq> 1"
  by (induction ns rule: base64_unpadded.induct) auto

lemma base64_unpadded_in_alphabet:
  "\<forall>n\<in>set ns. n < 256 \<Longrightarrow> \<forall>c\<in>set (base64_unpadded ns). char_sextet c \<noteq> None"
  by (induction ns rule: base64_unpadded.induct)
     (auto simp: char_sextet_def index_of_None_iff intro!: sextet_char_in_alphabet sextet_bounds)

lemma sextet_hi_div: "b < (256::nat) \<Longrightarrow> (x * 16 + b div 16) div 16 = x"
  by (simp add: less_mult_imp_div_less)

lemma sextet_hi_mod: "b < (256::nat) \<Longrightarrow> (x * 16 + b div 16) mod 16 = b div 16"
  by (simp add: less_mult_imp_div_less)

lemma sextet_lo_div: "(x * 4 + c div 64) div 4 = x" if "c < (256::nat)"
  using that by (simp add: less_mult_imp_div_less)

lemma sextet_lo_mod: "(x * 4 + c div 64) mod 4 = c div 64" if "c < (256::nat)"
  using that by (simp add: less_mult_imp_div_less)

lemma octet_regroup:
  assumes "a < 256" "b < 256" "c < (256::nat)"
  shows "(a div 4) * 4 + ((a mod 4) * 16 + b div 16) div 16 = a"
    "(((a mod 4) * 16 + b div 16) mod 16) * 16 + ((b mod 16) * 4 + c div 64) div 4 = b"
    "(((b mod 16) * 4 + c div 64) mod 4) * 64 + c mod 64 = c"
    "(a div 4) * 4 + ((a mod 4) * 16) div 16 = a"
    "(((a mod 4) * 16 + b div 16) mod 16) * 16 + ((b mod 16) * 4) div 4 = b"
  using assms by (simp_all add: sextet_hi_div sextet_hi_mod sextet_lo_div sextet_lo_mod)

lemma decode_sextets_base64_unpadded:
  "\<forall>n\<in>set ns. n < 256 \<Longrightarrow>
    decode_sextets (map (\<lambda>c. the (char_sextet c)) (base64_unpadded ns)) = ns"
proof (induction ns rule: base64_unpadded.induct)
  case (1 a b c rest)
  then have lt: "a < 256" "b < 256" "c < 256" by auto
  note s = sextet_bounds[OF lt, THEN char_sextet_sextet_char]
  from 1 have "decode_sextets (map (\<lambda>c. the (char_sextet c)) (base64_unpadded rest)) = rest"
    by simp
  then show ?case
    by (simp only: base64_unpadded.simps list.map decode_sextets.simps s option.sel
        octet_regroup[OF lt])
next
  case (2 a b)
  then have lt: "a < 256" "b < 256" "(0::nat) < 256" by auto
  note s = sextet_bounds[OF lt, THEN char_sextet_sextet_char]
  show ?case
    by (simp only: base64_unpadded.simps list.map decode_sextets.simps s option.sel
        octet_regroup[OF lt])
next
  case (3 a)
  then have lt: "a < 256" "(0::nat) < 256" "(0::nat) < 256" by auto
  note s = sextet_bounds[OF lt, THEN char_sextet_sextet_char]
  show ?case
    by (simp only: base64_unpadded.simps list.map decode_sextets.simps s option.sel
        octet_regroup[OF lt])
next
  case 4
  show ?case by simp
qed

lemma forgiving_base64_decode_encode:
  assumes "\<forall>n\<in>set ns. n < 256"
  shows "forgiving_base64_decode (base64_encode ns) = Some ns"
proof -
  have "\<not> list_ex (\<lambda>c. char_sextet c = None) (base64_unpadded ns)"
    using base64_unpadded_in_alphabet[OF assms] by (simp add: list_ex_iff)
  then show ?thesis
    unfolding forgiving_base64_decode_def
    using length_base64_unpadded_mod4[of ns]
    by (simp add: Let_def filter_ws_base64_encode[OF assms] strip_padding_base64_encode[OF assms]
        decode_sextets_base64_unpadded[OF assms])
qed

lemma unat_byte_less: "unat (b::byte) < 256"
  using unsigned_less[of b, where 'a=nat] by simp

lemma unat_ucast_byte: "unat (ucast (b::byte) :: 16 word) = unat b"
proof -
  have "unat b < 2 ^ 16" using unat_byte_less[of b] by simp
  then show ?thesis by (simp add: unsigned_ucast_eq take_bit_nat_eq_self)
qed

lemma ucast_byte_not_above: "\<not> (0xFF < (ucast (b::byte) :: 16 word))"
  using unat_byte_less[of b] by (simp add: word_less_nat_alt unat_ucast_byte not_less)

lemma ucast_ucast_byte: "(ucast (ucast (b::byte) :: 16 word) :: byte) = b"
  by (rule bit_word_eqI) (auto simp: bit_simps)

lemma arrayToBase64_eq:
  "arrayToBase64 a = Inr (base64_encode (map unat a))"
proof -
  have "\<not> list_ex (\<lambda>c. 0xFF < c) (map (\<lambda>byte. (ucast byte :: 16 word)) a)"
    by (simp add: list_ex_iff ucast_byte_not_above)
  then show ?thesis
    by (simp add: arrayToBase64_def btoa_def unat_ucast_byte o_def)
qed

lemma base64ToArray_base64_encode:
  "base64ToArray (base64_encode (map unat (a :: bytes))) = Inr a"
proof -
  have lt: "\<forall>n\<in>set (map unat a). n < 256"
    by (simp add: unat_byte_less)
  have rt: "map (\<lambda>c. (ucast c :: byte)) (map of_nat (map unat a) :: 16 word list) = a"
    by (simp add: o_def ucast_ucast_byte)
  show ?thesis
    by (simp add: bindE_def base64ToArray_def atob_def
        forgiving_base64_decode_encode[OF lt] rt del: map_map)
qed

lemma base64ToArray_arrayToBase64:
  "bindE (arrayToBase64 a) base64ToArray = Inr a"
  by (simp add: arrayToBase64_eq bindE_def base64ToArray_base64_encode)

section \<open>The length field and the layout of the package\<close>

lemma and_ff: "(x AND 0xff :: 32 word) = take_bit 8 x"
  by (simp add: take_bit_eq_mask mask_eq_exp_minus_1)

lemma byte_of_int32: "(ucast (ucast (x AND 0xff :: 32 word) :: byte) :: 32 word) = take_bit 8 x"
  unfolding and_ff by (rule bit_word_eqI) (auto simp: bit_simps)

lemma bit_header_part:
  fixes w :: "32 word"
  assumes "k + 8 \<le> 32"
  shows "bit (push_bit k (take_bit 8 (signed_drop_bit k w))) n \<longleftrightarrow> k \<le> n \<and> n < k + 8 \<and> bit w n"
proof (cases "k \<le> n")
  case True
  then obtain m where n: "n = k + m" by (auto simp: le_iff_add)
  show ?thesis using assms unfolding n
    by (auto simp: bit_simps dest: bit_imp_le_length)
next
  case False
  then show ?thesis by (simp add: bit_simps)
qed

lemma reassemble_int32:
  fixes w :: "32 word"
  shows "push_bit 24 (ucast (ucast (signed_drop_bit 24 w AND 0xff) :: byte) :: 32 word)
     OR push_bit 16 (ucast (ucast (signed_drop_bit 16 w AND 0xff) :: byte))
     OR push_bit 8 (ucast (ucast (signed_drop_bit 8 w AND 0xff) :: byte))
     OR ucast (ucast (w AND 0xff) :: byte) = w"
proof (rule bit_word_eqI)
  fix n assume "n < LENGTH(32)"
  then have n: "n < 32" by simp
  have low: "bit (take_bit 8 w) n \<longleftrightarrow> n < 8 \<and> bit w n"
    by (simp add: bit_simps)
  show "bit (push_bit 24 (ucast (ucast (signed_drop_bit 24 w AND 0xff) :: byte) :: 32 word)
     OR push_bit 16 (ucast (ucast (signed_drop_bit 16 w AND 0xff) :: byte))
     OR push_bit 8 (ucast (ucast (signed_drop_bit 8 w AND 0xff) :: byte))
     OR ucast (ucast (w AND 0xff) :: byte)) n = bit w n"
    unfolding byte_of_int32 bit_or_iff low
    using n by (simp add: bit_header_part) arith
qed

lemma sint_ToInt32: "n < 2 ^ 31 \<Longrightarrow> sint (ToInt32 (int n)) = int n"
proof -
  assume "n < 2 ^ 31"
  then have "int n < 2 ^ 31" by (metis of_nat_less_iff of_nat_numeral of_nat_power)
  then have "(int n + 2 ^ 31) mod 2 ^ 32 = int n + 2 ^ 31" by simp
  then show ?thesis
    unfolding ToInt32_def int_word_sint by simp
qed

lemma sint_ToInt32_big: "2 ^ 31 \<le> n \<Longrightarrow> n < 2 ^ 32 \<Longrightarrow> sint (ToInt32 (int n)) = int n - 2 ^ 32"
proof -
  assume a: "2 ^ 31 \<le> n" "n < 2 ^ 32"
  then have "int n < 2 ^ 32" "2 ^ 31 \<le> int n" 
    by (metis of_nat_less_iff of_nat_numeral of_nat_power, metis of_nat_le_iff of_nat_numeral of_nat_power)
  then have "(int n + 2 ^ 31) mod 2 ^ 32 = int n + 2 ^ 31 - 2 ^ 32"
    by (simp add: mod_pos_geq)
  then show ?thesis
    unfolding ToInt32_def int_word_sint by simp
qed

lemma length_kemLengthHeader: "length (kemLengthHeader n) = 4"
  by (simp add: kemLengthHeader_def)

lemma zero_filled_header:
  "(replicate (4 + n) (0::byte))[0 := b0, 1 := b1, 2 := b2, 3 := b3] = [b0, b1, b2, b3] @ replicate n 0"
  by (simp add: numeral_eq_Suc)

lemma typedArray_set_middle:
  "length m = length s \<Longrightarrow> typedArray_set (p @ m @ r) s (length p) = Inr (p @ s @ r)"
  by (simp add: typedArray_set_def)

lemma combinedBytes_layout:
  assumes "length i = 12"
  shows "combinedBytes k i e = Inr (kemLengthHeader (length k) @ k @ i @ e)"
proof -
  let ?h = "kemLengthHeader (length k)"
  have z: "replicate (4 + length k + 12 + length e) (0::byte)
      = replicate (4 + (length k + 12 + length e)) 0" by (simp add: add.assoc)
  have s1: "typedArray_set (?h @ replicate (length k + 12 + length e) 0) k 4
      = Inr (?h @ k @ replicate 12 0 @ replicate (length e) 0)"
    using typedArray_set_middle[of "replicate (length k) 0" k ?h "replicate 12 0 @ replicate (length e) 0"]
    by (simp add: length_kemLengthHeader replicate_add)
  have s2: "typedArray_set (?h @ k @ replicate 12 0 @ replicate (length e) 0) i (4 + length k)
      = Inr (?h @ k @ i @ replicate (length e) 0)"
    using typedArray_set_middle[of "replicate 12 0" i "?h @ k" "replicate (length e) 0"] assms
    by (simp add: length_kemLengthHeader)
  have s3: "typedArray_set (?h @ k @ i @ replicate (length e) 0) e (4 + length k + 12)
      = Inr (?h @ k @ i @ e)"
    using typedArray_set_middle[of "replicate (length e) 0" e "?h @ k @ i" "[]"] assms
    by (simp add: length_kemLengthHeader)
  show ?thesis
    unfolding combinedBytes_def Let_def z zero_filled_header
    unfolding kemLengthHeader_def[symmetric]
    by (simp only: s1 s2 s3 bindE_def sum.case)
qed

lemma readKemLength_header:
  "readKemLength (kemLengthHeader n @ rest) = sint (ToInt32 (int n))"
  unfolding readKemLength_def element_ToInt32_def
  by (simp add: kemLengthHeader_def reassemble_int32)

lemma slice_nonneg_Some:
  "0 \<le> s \<Longrightarrow> s \<le> e \<Longrightarrow> slice a s (Some e) = take (nat e - nat s) (drop (nat s) a)"
  by (auto simp: slice_def relative_index_def Let_def min_def)

lemma slice_nonneg_None:
  "0 \<le> s \<Longrightarrow> slice a s None = drop (nat s) a"
  by (auto simp: slice_def relative_index_def Let_def min_def)

lemma unpackFields_layout:
  assumes "length k < 2 ^ 31" "length i = 12"
  shows "unpackFields (kemLengthHeader (length k) @ k @ i @ e)
     = \<lparr> kemCiphertext = k, iv = i, encryptedData = e \<rparr>"
proof -
  let ?c = "kemLengthHeader (length k) @ k @ i @ e"
  have L: "readKemLength ?c = int (length k)"
    by (simp add: readKemLength_header sint_ToInt32[OF assms(1)])
  have a: "slice ?c 4 (Some (4 + int (length k))) = k"
    by (simp add: slice_nonneg_Some length_kemLengthHeader)
  have b: "slice ?c (4 + int (length k)) (Some (4 + int (length k) + 12)) = i"
    using assms(2) by (simp add: slice_nonneg_Some length_kemLengthHeader nat_add_distrib)
  have c: "slice ?c (4 + int (length k) + 12) None = e"
    using assms(2) by (simp add: slice_nonneg_None length_kemLengthHeader nat_add_distrib)
  show ?thesis
    unfolding unpackFields_def Let_def L a b c ..
qed

lemma unpackage_package:
  assumes "length k < 2 ^ 31" "length i = 12"
  shows "bindE (packageCiphertext k i e) unpackageCiphertext
     = Inr \<lparr> kemCiphertext = k, iv = i, encryptedData = e \<rparr>"
  by (simp add: packageCiphertext_def combinedBytes_layout[OF assms(2)] bindE_def
      arrayToBase64_eq unpackageCiphertext_def base64ToArray_base64_encode
      unpackFields_layout[OF assms] del: map_append)

lemma kemLengthHeader_240: "kemLengthHeader 240 = [0, 0, 0, 0xF0]"
  by (simp add: kemLengthHeader_def ToInt32_def)

section \<open>The concrete scenario\<close>

text \<open>
  Claim C5. For the 240-byte all-zero KEM ciphertext, the nonce 01 02 ... 0c and the
  sealed data de ad be ef, the array \<^verbatim>\<open>combined\<close> that \<^verbatim>\<open>packageCiphertext\<close> builds is
  00 00 00 F0, the 240 zero bytes, the nonce and de ad be ef; the base64 string it
  returns decodes to exactly these bytes; and \<^verbatim>\<open>unpackageCiphertext\<close> of that string, as
  well as the slicing of these bytes, returns the three components unchanged.
\<close>

theorem concrete_scenario:
  "combinedBytes (replicate 240 0) [1, 2, 3, 4, 5, 6, 7, 8, 9, 10, 11, 12] [0xde, 0xad, 0xbe, 0xef]
     = Inr ([0x00, 0x00, 0x00, 0xF0] @ replicate 240 0 @ [1, 2, 3, 4, 5, 6, 7, 8, 9, 10, 11, 12]
            @ [0xde, 0xad, 0xbe, 0xef])
   \<and> unpackFields ([0x00, 0x00, 0x00, 0xF0] @ replicate 240 0 @ [1, 2, 3, 4, 5, 6, 7, 8, 9, 10, 11, 12]
            @ [0xde, 0xad, 0xbe, 0xef])
     = \<lparr> kemCiphertext = replicate 240 0, iv = [1, 2, 3, 4, 5, 6, 7, 8, 9, 10, 11, 12],
         encryptedData = [0xde, 0xad, 0xbe, 0xef] \<rparr>
   \<and> bindE (packageCiphertext (replicate 240 0) [1, 2, 3, 4, 5, 6, 7, 8, 9, 10, 11, 12]
              [0xde, 0xad, 0xbe, 0xef]) base64ToArray
     = Inr ([0x00, 0x00, 0x00, 0xF0] @ replicate 240 0 @ [1, 2, 3, 4, 5, 6, 7, 8, 9, 10, 11, 12]
            @ [0xde, 0xad, 0xbe, 0xef])
   \<and> bindE (packageCiphertext (replicate 240 0) [1, 2, 3, 4, 5, 6, 7, 8, 9, 10, 11, 12]
              [0xde, 0xad, 0xbe, 0xef]) unpackageCiphertext
     = Inr \<lparr> kemCiphertext = replicate 240 0, iv = [1, 2, 3, 4, 5, 6, 7, 8, 9, 10, 11, 12],
             encryptedData = [0xde, 0xad, 0xbe, 0xef] \<rparr>"
proof -
  let ?k = "replicate 240 (0::byte)"
  let ?i = "[1, 2, 3, 4, 5, 6, 7, 8, 9, 10, 11, 12] :: bytes"
  let ?e = "[0xde, 0xad, 0xbe, 0xef] :: bytes"
  have li: "length ?i = 12" by simp
  have lk: "length ?k < 2 ^ 31" by simp
  have c: "combinedBytes ?k ?i ?e = Inr ([0x00, 0x00, 0x00, 0xF0] @ ?k @ ?i @ ?e)"
    using combinedBytes_layout[OF li, of ?k ?e] by (simp only: length_replicate kemLengthHeader_240)
  have u: "unpackFields ([0x00, 0x00, 0x00, 0xF0] @ ?k @ ?i @ ?e)
      = \<lparr> kemCiphertext = ?k, iv = ?i, encryptedData = ?e \<rparr>"
    using unpackFields_layout[OF lk li, of ?e] by (simp only: length_replicate kemLengthHeader_240)
  have p: "bindE (packageCiphertext ?k ?i ?e) base64ToArray
      = Inr ([0x00, 0x00, 0x00, 0xF0] @ ?k @ ?i @ ?e)"
    unfolding packageCiphertext_def c
    by (simp only: bindE_def sum.case arrayToBase64_eq base64ToArray_base64_encode)
  have r: "bindE (packageCiphertext ?k ?i ?e) unpackageCiphertext
      = Inr \<lparr> kemCiphertext = ?k, iv = ?i, encryptedData = ?e \<rparr>"
    by (rule unpackage_package[OF lk li])
  from c u p r show ?thesis by (intro conjI)
qed

section \<open>Unpacking any buffer\<close>

lemma element_ToInt32_padded:
  "element_ToInt32 (buf @ replicate n 0) i = element_ToInt32 buf i"
  by (auto simp: element_ToInt32_def nth_append)

lemma readKemLength_padded: "readKemLength (buf @ replicate n 0) = readKemLength buf"
  by (simp add: readKemLength_def element_ToInt32_padded)

lemma length_slice_None: "length (slice a s None) = length a - relative_index (length a) s"
  by (simp add: slice_def Let_def)

lemma length_slice_Some:
  "length (slice a s (Some e)) = min (relative_index (length a) e - relative_index (length a) s) (length a - relative_index (length a) s)"
  by (simp add: slice_def Let_def)

lemma short_buffer_fields:
  assumes "int (length buf) < 4 + readKemLength buf + 12"
  shows "encryptedData (unpackFields buf) = []"
    and "length (iv (unpackFields buf)) < 12"
    and "0 \<le> readKemLength buf \<Longrightarrow> int (length (kemCiphertext (unpackFields buf))) \<le> readKemLength buf"
proof -
  define L where "L = readKemLength buf"
  define n where "n = length buf"
  have h: "int n < 4 + L + 12" using assms by (simp add: L_def n_def)
  have "relative_index n (4 + L + 12) = n"
    using h by (auto simp: relative_index_def)
  then show "encryptedData (unpackFields buf) = []"
    by (simp add: unpackFields_def Let_def slice_def L_def[symmetric] n_def[symmetric])
  show "length (iv (unpackFields buf)) < 12"
    using h
    by (auto simp: unpackFields_def Let_def length_slice_Some L_def[symmetric] n_def[symmetric]
        relative_index_def min_def max_def)
  show "int (length (kemCiphertext (unpackFields buf))) \<le> readKemLength buf" if "0 \<le> readKemLength buf"
    using h that
    by (auto simp: unpackFields_def Let_def length_slice_Some L_def[symmetric] n_def[symmetric]
        relative_index_def min_def max_def)
qed


text \<open>
  Claim C9. \<^verbatim>\<open>unpackageCiphertext\<close> never raises on a decoded buffer: the base64 text of
  every buffer, of any length, is unpacked to the three slices, and so is every string
  that base64-decodes to the buffer. Bytes missing from the four-byte prefix count as
  zero: the length read is the one read from the buffer padded with zero bytes. When
  the buffer is shorter than \<open>4 + L + 12\<close>, for the length \<open>L\<close> read, no error is
  signalled: the sealed data is empty, the nonce has fewer than 12 bytes, and the KEM
  ciphertext has at most \<open>L\<close> bytes when \<open>L\<close> is not negative (a prefix with the high
  bit set reads as a negative \<open>L\<close>, for which the slice is counted from the end of the
  buffer).
\<close>

theorem unpack_total_on_buffers:
  "bindE (arrayToBase64 buf) unpackageCiphertext = Inr (unpackFields buf)
   \<and> (base64ToArray s = Inr buf \<longrightarrow> unpackageCiphertext s = Inr (unpackFields buf))
   \<and> readKemLength buf = readKemLength (buf @ replicate (4 - length buf) 0)
   \<and> (int (length buf) < 4 + readKemLength buf + 12 \<longrightarrow>
        encryptedData (unpackFields buf) = []
      \<and> length (iv (unpackFields buf)) < 12
      \<and> (0 \<le> readKemLength buf \<longrightarrow>
           int (length (kemCiphertext (unpackFields buf))) \<le> readKemLength buf))"
proof -
  have a: "bindE (arrayToBase64 buf) unpackageCiphertext = Inr (unpackFields buf)"
    by (simp add: arrayToBase64_eq bindE_def unpackageCiphertext_def base64ToArray_base64_encode)
  have b: "base64ToArray s = Inr buf \<longrightarrow> unpackageCiphertext s = Inr (unpackFields buf)"
    by (simp add: unpackageCiphertext_def bindE_def)
  have c: "readKemLength buf = readKemLength (buf @ replicate (4 - length buf) 0)"
    by (simp add: readKemLength_padded)
  from a b c short_buffer_fields[of buf] show ?thesis by blast
qed


lemma unpackFields_short_example: "unpackFields [0, 0, 0, 3, 7, 8] = \<lparr>kemCiphertext = [7, 8], iv = [], encryptedData = []\<rparr>"
  by (simp add: unpackFields_def readKemLength_def element_ToInt32_def slice_def relative_index_def)

lemma base64ToArray_short_example: "base64ToArray (map of_char ''AAAAAwcI'') = Inr [0, 0, 0, 3, 7, 8]"
  by (simp add: base64ToArray_def atob_def forgiving_base64_decode_def strip_padding_def
       ascii_whitespace_def char_sextet_def base64_alphabet_def bindE_def)

lemma readKemLength_short_example: "readKemLength [0, 0, 0, 3, 7, 8] = 3"
  by (simp add: readKemLength_def element_ToInt32_def)


lemma unpackFields_prefix_example:
  "unpackFields [0, 1] = \<lparr>kemCiphertext = [], iv = [], encryptedData = []\<rparr>"
  by (simp add: unpackFields_def readKemLength_def element_ToInt32_def slice_def relative_index_def)

lemma base64ToArray_prefix_example: "base64ToArray (map of_char ''AAE='') = Inr [0, 1]"
  by (simp add: base64ToArray_def atob_def forgiving_base64_decode_def strip_padding_def
       ascii_whitespace_def char_sextet_def base64_alphabet_def bindE_def)

lemma readKemLength_prefix_example: "readKemLength [0, 1] = 65536"
  by (simp add: readKemLength_def element_ToInt32_def)

theorem unpack_total_on_buffers_witness:
  "bindE (arrayToBase64 [0, 0, 0, 3, 7, 8]) unpackageCiphertext
     = Inr \<lparr>kemCiphertext = [7, 8], iv = [], encryptedData = []\<rparr>
   \<and> unpackageCiphertext (map of_char ''AAAAAwcI'')
     = Inr \<lparr>kemCiphertext = [7, 8], iv = [], encryptedData = []\<rparr>
   \<and> readKemLength [0, 0, 0, 3, 7, 8] = 3
   \<and> bindE (arrayToBase64 [0, 1]) unpackageCiphertext
     = Inr \<lparr>kemCiphertext = [], iv = [], encryptedData = []\<rparr>
   \<and> unpackageCiphertext (map of_char ''AAE='')
     = Inr \<lparr>kemCiphertext = [], iv = [], encryptedData = []\<rparr>
   \<and> readKemLength [0, 1] = 65536 \<and> readKemLength [0, 1, 0, 0] = 65536"
  using unpack_total_on_buffers[of "[0, 0, 0, 3, 7, 8]" "map of_char ''AAAAAwcI''"]
    unpack_total_on_buffers[of "[0, 1]" "map of_char ''AAE=''"]
  by (simp add: unpackFields_short_example base64ToArray_short_example[simplified]
      readKemLength_short_example unpackFields_prefix_example
      base64ToArray_prefix_example[simplified] readKemLength_prefix_example
      numeral_2_eq_2)

section \<open>The length field\<close>

lemma header_byte_drop_bit:
  fixes w :: "32 word"
  assumes "k + 8 \<le> 32"
  shows "(ucast (signed_drop_bit k w AND 0xff) :: byte) = ucast (drop_bit k w)"
proof (rule bit_word_eqI)
  fix n assume "n < LENGTH(8)"
  then have n: "n < 8" by simp
  then show "bit (ucast (signed_drop_bit k w AND 0xff) :: byte) n = bit (ucast (drop_bit k w) :: byte) n"
    using assms by (auto simp: and_ff bit_simps)
qed

lemma unat_header_byte:
  fixes w :: "32 word"
  assumes "k + 8 \<le> 32"
  shows "unat (ucast (signed_drop_bit k w AND 0xff) :: byte) = unat w div 2 ^ k mod 256"
proof -
  have "unat (ucast (drop_bit k w) :: byte) = take_bit 8 (drop_bit k (unat w))"
    by (simp add: unsigned_ucast_eq unat_drop_bit_eq)
  also have "\<dots> = unat w div 2 ^ k mod 256"
    by (simp add: take_bit_eq_mod drop_bit_eq_div)
  finally show ?thesis
    unfolding header_byte_drop_bit[OF assms] .
qed

lemma unat_ToInt32: "unat (ToInt32 (int n)) = n mod 2 ^ 32"
  by (simp add: ToInt32_def unat_of_nat)

lemma be32_decompose:
  fixes m :: nat
  shows "m div 16777216 mod 256 * 16777216 + m div 65536 mod 256 * 65536 + m div 256 mod 256 * 256
     + m mod 256 = m mod 4294967296"
proof -
  have a: "m mod 4294967296 = m div 256 mod 16777216 * 256 + m mod 256"
    using mod_mult2_eq[of m 256 16777216] by simp
  have b: "m div 256 mod 16777216 = m div 65536 mod 65536 * 256 + m div 256 mod 256"
    using mod_mult2_eq[of "m div 256" 256 65536] by (simp add: div_mult2_eq[symmetric])
  have c: "m div 65536 mod 65536 = m div 16777216 mod 256 * 256 + m div 65536 mod 256"
    using mod_mult2_eq[of "m div 65536" 256 256] by (simp add: div_mult2_eq[symmetric])
  show ?thesis unfolding a b c by simp
qed

lemma be32_kemLengthHeader: "be32 (kemLengthHeader n) = n mod 2 ^ 32"
proof -
  let ?m = "n mod 4294967296"
  have z: "unat (ucast (ToInt32 (int n) AND 0xff) :: byte) = ?m mod 256"
    using unat_header_byte[of 0 "ToInt32 (int n)"] by (simp add: unat_ToInt32)
  have b3: "unat (ucast (signed_drop_bit 24 (ToInt32 (int n)) AND 0xff) :: byte) = ?m div 16777216 mod 256"
    using unat_header_byte[of 24 "ToInt32 (int n)"] by (simp add: unat_ToInt32)
  have b2: "unat (ucast (signed_drop_bit 16 (ToInt32 (int n)) AND 0xff) :: byte) = ?m div 65536 mod 256"
    using unat_header_byte[of 16 "ToInt32 (int n)"] by (simp add: unat_ToInt32)
  have b1: "unat (ucast (signed_drop_bit 8 (ToInt32 (int n)) AND 0xff) :: byte) = ?m div 256 mod 256"
    using unat_header_byte[of 8 "ToInt32 (int n)"] by (simp add: unat_ToInt32)
  have h: "kemLengthHeader n ! 0 = ucast (signed_drop_bit 24 (ToInt32 (int n)) AND 0xff)"
    "kemLengthHeader n ! 1 = ucast (signed_drop_bit 16 (ToInt32 (int n)) AND 0xff)"
    "kemLengthHeader n ! 2 = ucast (signed_drop_bit 8 (ToInt32 (int n)) AND 0xff)"
    "kemLengthHeader n ! 3 = ucast (ToInt32 (int n) AND 0xff)"
    by (simp_all add: kemLengthHeader_def)
  have "be32 (kemLengthHeader n) = ?m div 16777216 mod 256 * 16777216 + ?m div 65536 mod 256 * 65536
      + ?m div 256 mod 256 * 256 + ?m mod 256"
    unfolding be32_def h z b1 b2 b3 by simp
  also have "\<dots> = ?m mod 4294967296" by (rule be32_decompose)
  finally show ?thesis by simp
qed


text \<open>
  Claim C4, at the length \<open>2^31\<close>. \<^verbatim>\<open>packageCiphertext\<close> stores the length as the
  bytes 80 00 00 00, which are \<open>2^31\<close> as an unsigned big-endian integer (and
  \<open>be32_kemLengthHeader\<close> shows the same for every length). \<^verbatim>\<open>unpackageCiphertext\<close>
  reads these four bytes, which are the decoded text \<^verbatim>\<open>gAAAAA==\<close>, as \<open>- 2^31\<close>: the
  result of \<^verbatim>\<open><<\<close> and \<^verbatim>\<open>|\<close> is a signed 32-bit integer.
\<close>

theorem length_field_signed_read:
  "kemLengthHeader 2147483648 = [0x80, 0, 0, 0]
   \<and> be32 [0x80, 0, 0, 0] = 2147483648
   \<and> base64ToArray (map of_char ''gAAAAA=='') = Inr [0x80, 0, 0, 0]
   \<and> readKemLength [0x80, 0, 0, 0] = - 2147483648"
  by (simp add: kemLengthHeader_def ToInt32_def be32_def readKemLength_def element_ToInt32_def
      base64ToArray_def atob_def forgiving_base64_decode_def strip_padding_def
      ascii_whitespace_def char_sextet_def base64_alphabet_def bindE_def)

section \<open>Encryption and decryption, step by step\<close>

lemma base64ToArray_error: "base64ToArray s = Inl e \<Longrightarrow> e = InvalidCharacterError"
  by (auto simp: base64ToArray_def bindE_def atob_def split: option.splits sum.splits)

lemma unpackageCiphertext_error: "unpackageCiphertext s = Inl e \<Longrightarrow> e = InvalidCharacterError"
  by (auto simp: unpackageCiphertext_def bindE_def dest: base64ToArray_error split: sum.splits)

lemma decryptMessage_traced_unpack_error:
  "unpackageCiphertext c = Inl e \<Longrightarrow> decryptMessage_traced P k c = ([], Inl e)"
  by (simp add: decryptMessage_traced_def)

lemma decryptMessage_traced_key_error:
  "unpackageCiphertext c = Inr env \<Longrightarrow> base64ToArray k = Inl e \<Longrightarrow>
   decryptMessage_traced P k c = ([], Inl e)"
  by (simp add: decryptMessage_traced_def)

lemma decryptMessage_traced_first_call:
  assumes "unpackageCiphertext c = Inr env" "base64ToArray k = Inr sk"
  shows "\<exists>rest. fst (decryptMessage_traced P k c) = KemDecrypt (kemCiphertext env) sk # rest"
  using assms
  by (auto simp: decryptMessage_traced_def Let_def split: sum.splits)

lemma decryptMessage_fails_iff:
  "(\<exists>e. decryptMessage P k c = Inl e) \<longleftrightarrow>
     (\<exists>e. unpackageCiphertext c = Inl e)
   \<or> (\<exists>e. base64ToArray k = Inl e)
   \<or> (\<exists>env sk. unpackageCiphertext c = Inr env \<and> base64ToArray k = Inr sk \<and>
        ((\<exists>e. mceliece_decrypt P (kemCiphertext env) sk = Inl e)
       \<or> (\<exists>secret. mceliece_decrypt P (kemCiphertext env) sk = Inr secret \<and>
            ((\<exists>e. importKey secret = Inl e)
           \<or> (\<exists>e. aes_gcm_decrypt P secret (iv env) (encryptedData env) = Inl e)))))"
  by (auto simp: decryptMessage_def decryptMessage_traced_def Let_def importKey_def
      split: sum.splits if_splits)

lemma decryptMessage_success:
  assumes "unpackageCiphertext c = Inr env" "base64ToArray k = Inr sk"
    "mceliece_decrypt P (kemCiphertext env) sk = Inr secret" "importKey secret = Inr aesKey"
    "aes_gcm_decrypt P aesKey (iv env) (encryptedData env) = Inr decryptedData"
  shows "decryptMessage P k c = Inr (TextDecoder_decode decryptedData)"
  using assms by (simp add: decryptMessage_def decryptMessage_traced_def Let_def)

lemma unpackageCiphertext_base64_encode:
  assumes "length k < 2 ^ 31" "length n = 12"
  shows "unpackageCiphertext (base64_encode (map unat (kemLengthHeader (length k) @ k @ n @ e)))
     = Inr \<lparr> kemCiphertext = k, iv = n, encryptedData = e \<rparr>"
  by (simp only: unpackageCiphertext_def base64ToArray_base64_encode bindE_def sum.case
      unpackFields_layout[OF assms])

lemma importKey_Inr_iff:
  "importKey s = Inr k \<longleftrightarrow> k = s \<and> (length s = 16 \<or> length s = 24 \<or> length s = 32)"
  by (auto simp: importKey_def split: if_splits)

lemma importKey_error: "importKey k = Inl e \<Longrightarrow> e = DataError"
  by (auto simp: importKey_def split: if_splits)

lemma length_getRandomValues: "length (fst (getRandomValues n source)) = n"
  by (simp add: getRandomValues_def)

lemma encryptMessage_success:
  assumes "encryptMessage P pkb m coins source = (Inr pkg, source')"
  shows "\<exists>pk ct secret sealed.
     base64ToArray pkb = Inr pk \<and> mceliece_encrypt P pk coins = Inr (ct, secret)
   \<and> importKey secret = Inr secret
   \<and> aes_gcm_encrypt P secret (fst (getRandomValues 12 source)) (TextEncoder_encode m) = Inr sealed
   \<and> packageCiphertext ct (fst (getRandomValues 12 source)) sealed = Inr pkg
   \<and> source' = snd (getRandomValues 12 source)"
  using assms
  unfolding encryptMessage_def Let_def
  by (auto simp: bindE_def importKey_Inr_iff split: sum.splits prod.splits)

lemma generateKeyPair_eq:
  assumes "mceliece_keyPair P seed = Inr (sk, pk)"
  shows "generateKeyPair P seed
     = Inr \<lparr> privateKey = base64_encode (map unat sk), publicKey = base64_encode (map unat pk),
             privateKeySize = length sk, publicKeySize = length pk \<rparr>"
  using assms by (simp add: generateKeyPair_def bindE_def arrayToBase64_eq)

lemma packageCiphertext_eq:
  assumes "length n = 12"
  shows "packageCiphertext ct n sealed
     = Inr (base64_encode (map unat (kemLengthHeader (length ct) @ ct @ n @ sealed)))"
  using assms
  by (simp add: packageCiphertext_def combinedBytes_layout bindE_def arrayToBase64_eq
      del: map_append)

lemma encryptMessage_eq:
  assumes "mceliece_encrypt P pk coins = Inr (ct, secret)"
    and "importKey secret = Inr secret"
    and "aes_gcm_encrypt P secret (map source [0..<12]) (TextEncoder_encode m) = Inr sealed"
  shows "encryptMessage P (base64_encode (map unat pk)) m coins source
     = (Inr (base64_encode (map unat (kemLengthHeader (length ct) @ ct @ map source [0..<12] @ sealed))),
        \<lambda>i. source (12 + i))"
proof -
  have p: "packageCiphertext ct (map source [0..<12]) sealed
     = Inr (base64_encode (map unat (kemLengthHeader (length ct) @ ct @ map source [0..<12] @ sealed)))"
    by (rule packageCiphertext_eq) simp
  have g: "getRandomValues 12 source = (map source [0..<12], \<lambda>i. source (12 + i))"
    by (simp only: getRandomValues_def)
  show ?thesis
    unfolding encryptMessage_def base64ToArray_base64_encode sum.case assms(1) fst_conv snd_conv
      Let_def assms(2) g prod.case assms(3) bindE_def p ..
qed

lemma decrypt_of_encrypt:
  assumes kp: "mceliece_keyPair P seed = Inr (sk, pk)"
    and enc: "mceliece_encrypt P pk coins = Inr (ct, secret)"
    and dec: "mceliece_decrypt P ct sk = Inr secret"
    and size: "length ct < 2 ^ 31"
    and key: "importKey secret = Inr secret"
    and seal: "aes_gcm_encrypt P secret (map source [0..<12]) (TextEncoder_encode m) = Inr sealed"
    and opn: "aes_gcm_decrypt P secret (map source [0..<12]) sealed = Inr (TextEncoder_encode m)"
  shows "decryptMessage P (base64_encode (map unat sk))
      (base64_encode (map unat (kemLengthHeader (length ct) @ ct @ map source [0..<12] @ sealed)))
     = Inr (TextDecoder_decode (TextEncoder_encode m))"
proof -
  let ?env = "\<lparr> kemCiphertext = ct, iv = map source [0..<12], encryptedData = sealed \<rparr>"
  have u: "unpackageCiphertext
      (base64_encode (map unat (kemLengthHeader (length ct) @ ct @ map source [0..<12] @ sealed)))
     = Inr ?env"
    by (rule unpackageCiphertext_base64_encode[OF size]) simp
  show ?thesis
    by (rule decryptMessage_success[where env = ?env and sk = sk and secret = secret
          and aesKey = secret])
       (simp_all only: u base64ToArray_base64_encode envelope.simps dec key opn)
qed

subsection \<open>The program on concrete inputs\<close>

lemma toy_keyPair: "mceliece_keyPair toy_primitives [1, 2, 3] = Inr ([1, 2, 3], [1, 2, 3])"
  by (simp add: toy_primitives_def)

lemma toy_encrypt:
  "mceliece_encrypt toy_primitives [1, 2, 3] (replicate 32 7) = Inr (replicate 32 7, replicate 32 7)"
  by (simp add: toy_primitives_def)

lemma toy_decrypt:
  "mceliece_decrypt toy_primitives (replicate 32 7) [1, 2, 3] = Inr (replicate 32 7)"
  by (simp add: toy_primitives_def)

lemma toy_importKey: "importKey (replicate 32 7) = Inr (replicate 32 7)"
  by (simp add: importKey_def)

lemma toy_seal:
  "aes_gcm_encrypt toy_primitives (replicate 32 7) n pt = Inr (pt @ replicate 16 0)"
  by (simp add: toy_primitives_def)

lemma toy_open:
  "aes_gcm_decrypt toy_primitives (replicate 32 7) n (pt @ replicate 16 0) = Inr pt"
  by (simp add: toy_primitives_def)

lemma toy_kem_size:
  "mceliece_encrypt toy_primitives pk c = Inr (ct, secret) \<Longrightarrow> length ct < 2 ^ 31"
  by (auto simp: toy_primitives_def)

lemma truncated_example_decode:
  "base64ToArray (map of_char ''AAAA8A=='') = Inr [0, 0, 0, 0xF0]"
  by (simp add: base64ToArray_def atob_def forgiving_base64_decode_def strip_padding_def
       ascii_whitespace_def char_sextet_def base64_alphabet_def bindE_def)

lemma key_example_decode:
  "base64ToArray (map of_char ''AQID'') = Inr [1, 2, 3]"
  by (simp add: base64ToArray_def atob_def forgiving_base64_decode_def strip_padding_def
       ascii_whitespace_def char_sextet_def base64_alphabet_def bindE_def)

lemma truncated_example_length: "readKemLength [0, 0, 0, 0xF0] = 240"
  by (simp add: readKemLength_def element_ToInt32_def)

lemma truncated_example_fields:
  "unpackFields [0, 0, 0, 0xF0] = \<lparr>kemCiphertext = [], iv = [], encryptedData = []\<rparr>"
  by (simp add: unpackFields_def truncated_example_length slice_def relative_index_def)

lemma truncated_example_unpack:
  "unpackageCiphertext (map of_char ''AAAA8A=='')
     = Inr \<lparr>kemCiphertext = [], iv = [], encryptedData = []\<rparr>"
  unfolding unpackageCiphertext_def truncated_example_decode
  by (simp add: bindE_def truncated_example_fields)

lemma truncated_example_decrypt:
  "decryptMessage_traced toy_primitives (map of_char ''AQID'') (map of_char ''AAAA8A=='')
     = ([KemDecrypt [] [1, 2, 3], ImportKey []], Inl DataError)"
  unfolding decryptMessage_traced_def truncated_example_unpack key_example_decode
  by (simp add: toy_primitives_def importKey_def)

lemma trim_key_example: "trim (map of_char '' AQID '') = map of_char ''AQID''"
  by (simp add: trim_def js_whitespace_def)

lemma trim_package_example: "trim (map of_char ''AAAA8A=='') = map of_char ''AAAA8A==''"
  by (simp add: trim_def js_whitespace_def)

section \<open>A truncated package\<close>

text \<open>
  Claim C3, as the program has it. The program has no length check and no
  \<open>TruncatedEnvelope\<close> error: for a package that decodes to a buffer shorter than
  \<open>4 + L + 12\<close>, \<^verbatim>\<open>unpackageCiphertext\<close> returns the slices of the buffer, and
  \<^verbatim>\<open>decryptMessage\<close> (given a private key that decodes) goes on to call
  \<^verbatim>\<open>mceliece.decrypt\<close> on the KEM ciphertext slice as its first cryptographic call. The
  only rejection before a cryptographic call is the \<open>InvalidCharacterError\<close> of base64
  decoding (\<open>unpackageCiphertext_error\<close>, \<open>decryptMessage_traced_unpack_error\<close>).
\<close>

theorem truncated_buffer_reaches_decapsulation:
  assumes "base64ToArray pkg = Inr buf"
    and "int (length buf) < 4 + readKemLength buf + 12"
    and "base64ToArray privateKeyBase64 = Inr sk"
  shows "unpackageCiphertext pkg = Inr (unpackFields buf)
    \<and> (\<exists>rest. fst (decryptMessage_traced P privateKeyBase64 pkg)
           = KemDecrypt (kemCiphertext (unpackFields buf)) sk # rest)"
proof -
  have u: "unpackageCiphertext pkg = Inr (unpackFields buf)"
    using assms(1) by (simp add: unpackageCiphertext_def bindE_def)
  from decryptMessage_traced_first_call[OF u assms(3), of P] u show ?thesis by simp
qed

theorem truncated_buffer_reaches_decapsulation_witness:
  "unpackageCiphertext (map of_char ''AAAA8A=='') = Inr (unpackFields [0, 0, 0, 0xF0])
    \<and> (\<exists>rest. fst (decryptMessage_traced toy_primitives (map of_char ''AQID'') (map of_char ''AAAA8A==''))
           = KemDecrypt (kemCiphertext (unpackFields [0, 0, 0, 0xF0])) [1, 2, 3] # rest)"
proof -
  have h: "int (length [0, 0, 0, 0xF0 :: byte]) < 4 + readKemLength [0, 0, 0, 0xF0] + 12"
    by (simp add: truncated_example_length)
  show ?thesis
    by (rule truncated_buffer_reaches_decapsulation[OF truncated_example_decode h key_example_decode])
qed

text \<open>
  The package \<^verbatim>\<open>AAAA8A==\<close> is the four bytes 00 00 00 F0: it declares 240 bytes of KEM
  ciphertext and holds none. It is unpacked to three empty slices, and decryption calls
  the decapsulation and the key import before it fails.
\<close>

theorem truncated_envelope_not_rejected:
  "base64ToArray (map of_char ''AAAA8A=='') = Inr [0, 0, 0, 0xF0]
   \<and> int (length [0, 0, 0, 0xF0 :: byte]) < 4 + readKemLength [0, 0, 0, 0xF0] + 12
   \<and> unpackageCiphertext (map of_char ''AAAA8A=='')
       = Inr \<lparr>kemCiphertext = [], iv = [], encryptedData = []\<rparr>
   \<and> decryptMessage_traced toy_primitives (map of_char ''AQID'') (map of_char ''AAAA8A=='')
       = ([KemDecrypt [] [1, 2, 3], ImportKey []], Inl DataError)"
  using truncated_example_unpack truncated_example_decrypt truncated_example_decode
  by (simp add: truncated_example_length)

section \<open>A failed decryption on the page\<close>

text \<open>
  Claim C6. The handler calls \<^verbatim>\<open>decryptMessage\<close> when both trimmed inputs are given.
  Whenever a stage of it fails (unpacking the package, decoding the private key, the
  decapsulation, the key import, or the AES-GCM decryption), \<^verbatim>\<open>decryptMessage\<close> fails
  and the handler leaves the page with the one status "Decryption failed. Wrong key or
  corrupted data." of type error and the output hidden; the decrypted text is untouched.
  The page differs between two failures only in what \<^verbatim>\<open>console.error\<close> has logged.
\<close>

theorem decrypt_failure_is_uniform:
  assumes k: "k = trim (decryptPrivkey_value pg)" and c: "c = trim (ciphertextInput_value pg)"
    and given: "k \<noteq> []" "c \<noteq> []"
    and stage_fails:
      "(\<exists>e. unpackageCiphertext c = Inl e)
     \<or> (\<exists>e. base64ToArray k = Inl e)
     \<or> (\<exists>env sk. unpackageCiphertext c = Inr env \<and> base64ToArray k = Inr sk \<and>
          ((\<exists>e. mceliece_decrypt P (kemCiphertext env) sk = Inl e)
         \<or> (\<exists>secret. mceliece_decrypt P (kemCiphertext env) sk = Inr secret \<and>
              ((\<exists>e. importKey secret = Inl e)
             \<or> (\<exists>e. aes_gcm_decrypt P secret (iv env) (encryptedData env) = Inl e)))))"
  shows "(\<exists>e. decryptMessage P k c = Inl e
          \<and> decryptBtn_click P elapsed pg
             = pg\<lparr>console := console pg @ [e],
                  decryptStatus := Some (DecryptionFailed, StatusError),
                  decryptedOutput_hidden := True\<rparr>)
    \<and> decryptStatus (decryptBtn_click P elapsed pg) = Some (DecryptionFailed, StatusError)
    \<and> decryptedOutput_hidden (decryptBtn_click P elapsed pg)
    \<and> decryptedText_value (decryptBtn_click P elapsed pg) = decryptedText_value pg"
proof -
  from stage_fails obtain e where e: "decryptMessage P k c = Inl e"
    using decryptMessage_fails_iff[of P k c] by blast
  from e given show ?thesis
    unfolding k c by (simp add: decryptBtn_click_def Let_def)
qed

theorem decrypt_failure_is_uniform_witness:
  "decryptMessage toy_primitives (map of_char ''AQID'') (map of_char ''AAAA8A=='') = Inl DataError
   \<and> decryptBtn_click toy_primitives ''0.01''
      \<lparr>decryptPrivkey_value = map of_char '' AQID '',
       ciphertextInput_value = map of_char ''AAAA8A=='', decryptStatus = None,
       decryptedText_value = [], decryptedOutput_hidden = False, console = []\<rparr>
    = \<lparr>decryptPrivkey_value = map of_char '' AQID '',
       ciphertextInput_value = map of_char ''AAAA8A=='',
       decryptStatus = Some (DecryptionFailed, StatusError),
       decryptedText_value = [], decryptedOutput_hidden = True, console = [DataError]\<rparr>"
proof -
  let ?pg = "\<lparr>decryptPrivkey_value = map of_char '' AQID '',
       ciphertextInput_value = map of_char ''AAAA8A=='', decryptStatus = None,
       decryptedText_value = [], decryptedOutput_hidden = False, console = []\<rparr>"
  let ?k = "map of_char ''AQID'' :: jsstring"
  let ?c = "map of_char ''AAAA8A=='' :: jsstring"
  have t1: "?k = trim (decryptPrivkey_value ?pg)"
    by (simp only: page.simps trim_key_example)
  have t2: "?c = trim (ciphertextInput_value ?pg)"
    by (simp only: page.simps trim_package_example)
  have n: "?k \<noteq> []" "?c \<noteq> []" by simp_all
  have d: "decryptMessage toy_primitives ?k ?c = Inl DataError"
    unfolding decryptMessage_def truncated_example_decrypt by simp
  have i: "importKey [] = Inl DataError" by (simp add: importKey_def)
  have s: "\<exists>env sk. unpackageCiphertext ?c = Inr env \<and> base64ToArray ?k = Inr sk \<and>
          ((\<exists>e. mceliece_decrypt toy_primitives (kemCiphertext env) sk = Inl e)
         \<or> (\<exists>secret. mceliece_decrypt toy_primitives (kemCiphertext env) sk = Inr secret \<and>
              ((\<exists>e. importKey secret = Inl e)
             \<or> (\<exists>e. aes_gcm_decrypt toy_primitives secret (iv env) (encryptedData env) = Inl e))))"
    unfolding truncated_example_unpack key_example_decode
    using i by (auto simp: toy_primitives_def)
  from decrypt_failure_is_uniform[OF t1 t2 n, of toy_primitives "''0.01''"] s d
  show ?thesis by auto
qed

section \<open>The nonce of an encryption\<close>

lemma tagging_encrypt:
  "mceliece_encrypt nonce_tagging_primitives [1, 2, 3] (replicate 32 7)
     = Inr (replicate 32 7, replicate 32 7)"
  by (simp add: nonce_tagging_primitives_def toy_primitives_def)

lemma tagging_seal:
  "aes_gcm_encrypt nonce_tagging_primitives key n pt = Inr (pt @ n @ replicate 4 0)"
  by (simp add: nonce_tagging_primitives_def)

lemma tagging_kem_size:
  "mceliece_encrypt nonce_tagging_primitives pk c = Inr (ct, secret) \<Longrightarrow> length ct < 2 ^ 31"
  by (auto simp: nonce_tagging_primitives_def toy_primitives_def)

lemma encryptMessage_unpacked:
  assumes size: "\<forall>pk c ct secret. mceliece_encrypt P pk c = Inr (ct, secret) \<longrightarrow> length ct < 2 ^ 31"
    and e: "encryptMessage P pkb m coins source = (Inr pkg, source')"
  shows "\<exists>pk ct secret env.
      base64ToArray pkb = Inr pk
    \<and> mceliece_encrypt P pk coins = Inr (ct, secret)
    \<and> importKey secret = Inr secret
    \<and> aes_gcm_encrypt P secret (map source [0..<12]) (TextEncoder_encode m)
        = Inr (encryptedData env)
    \<and> unpackageCiphertext pkg = Inr env \<and> kemCiphertext env = ct
    \<and> iv env = map source [0..<12]
    \<and> source' = (\<lambda>i. source (12 + i))"
proof -
  have g: "getRandomValues 12 source = (map source [0..<12], \<lambda>i. source (12 + i))"
    by (simp only: getRandomValues_def)
  from encryptMessage_success[OF e] obtain pk ct secret sealed where
    d: "base64ToArray pkb = Inr pk"
    and k: "mceliece_encrypt P pk coins = Inr (ct, secret)"
    and i: "importKey secret = Inr secret"
    and a: "aes_gcm_encrypt P secret (map source [0..<12]) (TextEncoder_encode m) = Inr sealed"
    and p: "packageCiphertext ct (map source [0..<12]) sealed = Inr pkg"
    and s: "source' = (\<lambda>i. source (12 + i))"
    unfolding g fst_conv snd_conv by (elim exE conjE)
  have l: "length (map source [0..<12]) = 12" by simp
  from size k have "length ct < 2 ^ 31" by blast
  from unpackage_package[OF this l, of sealed] p
  have u: "unpackageCiphertext pkg
      = Inr \<lparr>kemCiphertext = ct, iv = map source [0..<12], encryptedData = sealed\<rparr>"
    by (simp add: bindE_def)
  show ?thesis
    apply (rule exI[of _ pk], rule exI[of _ ct], rule exI[of _ secret])
    apply (rule exI[of _ "\<lparr>kemCiphertext = ct, iv = map source [0..<12], encryptedData = sealed\<rparr>"])
    using d k i a u s by simp
qed

text \<open>
  Claim C7. Every successful \<^verbatim>\<open>encryptMessage\<close> call takes its nonce from
  \<^verbatim>\<open>crypto.getRandomValues\<close>: the 12 bytes the random source delivered in that call are
  the nonce under which AES-GCM sealed the plaintext (the sealed data in the package are
  the result of \<open>aes_gcm_encrypt\<close> with the KEM's secret and these 12 bytes, for every
  instance of the primitives), and they are the nonce that \<^verbatim>\<open>unpackageCiphertext\<close> finds in
  the package, whatever the public key, the plaintext and the library's coins are. Two
  calls with the same public key and plaintext whose draws differ have different nonces.
  A call consumes its 12 bytes, so a call that follows draws the next 12 bytes of the
  source. (That the platform's source is cryptographically secure is its contract and is
  not modelled. The KEM ciphertext is taken to be shorter than \<open>2^31\<close> bytes; the
  library's has 240.)
\<close>

theorem nonce_is_fresh_draw:
  assumes size: "\<And>pk c ct secret. mceliece_encrypt P pk c = Inr (ct, secret) \<Longrightarrow> length ct < 2 ^ 31"
    and e1: "encryptMessage P publicKeyBase64 plaintext coins1 source1 = (Inr pkg1, source1')"
    and e2: "encryptMessage P publicKeyBase64 plaintext coins2 source2 = (Inr pkg2, source2')"
  shows "\<exists>pk ct1 secret1 ct2 secret2 env1 env2.
      base64ToArray publicKeyBase64 = Inr pk
    \<and> mceliece_encrypt P pk coins1 = Inr (ct1, secret1)
    \<and> aes_gcm_encrypt P secret1 (map source1 [0..<12]) (TextEncoder_encode plaintext)
        = Inr (encryptedData env1)
    \<and> unpackageCiphertext pkg1 = Inr env1 \<and> kemCiphertext env1 = ct1
    \<and> iv env1 = map source1 [0..<12]
    \<and> mceliece_encrypt P pk coins2 = Inr (ct2, secret2)
    \<and> aes_gcm_encrypt P secret2 (map source2 [0..<12]) (TextEncoder_encode plaintext)
        = Inr (encryptedData env2)
    \<and> unpackageCiphertext pkg2 = Inr env2 \<and> kemCiphertext env2 = ct2
    \<and> iv env2 = map source2 [0..<12]
    \<and> (map source1 [0..<12] \<noteq> map source2 [0..<12] \<longrightarrow> iv env1 \<noteq> iv env2)
    \<and> source1' = (\<lambda>i. source1 (12 + i))
    \<and> (source2 = source1' \<longrightarrow> iv env2 = map source1 [12..<24])"
proof -
  from size have size':
    "\<forall>pk c ct secret. mceliece_encrypt P pk c = Inr (ct, secret) \<longrightarrow> length ct < 2 ^ 31"
    by blast
  from encryptMessage_unpacked[OF size' e1] obtain pk ct1 secret1 env1 where
    a: "base64ToArray publicKeyBase64 = Inr pk"
      "mceliece_encrypt P pk coins1 = Inr (ct1, secret1)"
      "aes_gcm_encrypt P secret1 (map source1 [0..<12]) (TextEncoder_encode plaintext)
        = Inr (encryptedData env1)"
      "unpackageCiphertext pkg1 = Inr env1" "kemCiphertext env1 = ct1"
      "iv env1 = map source1 [0..<12]" "source1' = (\<lambda>i. source1 (12 + i))"
    by (elim exE conjE)
  from encryptMessage_unpacked[OF size' e2] obtain pk' ct2 secret2 env2 where
    b: "base64ToArray publicKeyBase64 = Inr pk'"
      "mceliece_encrypt P pk' coins2 = Inr (ct2, secret2)"
      "aes_gcm_encrypt P secret2 (map source2 [0..<12]) (TextEncoder_encode plaintext)
        = Inr (encryptedData env2)"
      "unpackageCiphertext pkg2 = Inr env2" "kemCiphertext env2 = ct2"
      "iv env2 = map source2 [0..<12]"
    by (elim exE conjE)
  from a(1) b(1) have pk: "pk' = pk" by simp
  have shift: "map (\<lambda>i. source1 (12 + i)) [0..<12] = map source1 [12..<24]"
    by (simp add: numeral_eq_Suc upt_rec)
  have n: "map source1 [0..<12] \<noteq> map source2 [0..<12] \<longrightarrow> iv env1 \<noteq> iv env2"
    unfolding a(6) b(6) by (rule impI)
  have f: "source2 = source1' \<longrightarrow> iv env2 = map source1 [12..<24]"
    unfolding b(6) a(7) using shift by auto
  show ?thesis
    apply (rule exI[of _ pk], rule exI[of _ ct1], rule exI[of _ secret1])
    apply (rule exI[of _ ct2], rule exI[of _ secret2], rule exI[of _ env1], rule exI[of _ env2])
    by (intro conjI a b[unfolded pk] n f)
qed

theorem nonce_is_fresh_draw_witness:
  "\<exists>pkg1 pkg2 env1 env2.
      fst (encryptMessage nonce_tagging_primitives (base64_encode (map unat [1, 2, 3 :: byte]))
            [0x68, 0x69] (replicate 32 7) counting_source) = Inr pkg1
    \<and> fst (encryptMessage nonce_tagging_primitives (base64_encode (map unat [1, 2, 3 :: byte]))
            [0x68, 0x69] (replicate 32 7) (snd (getRandomValues 12 counting_source))) = Inr pkg2
    \<and> unpackageCiphertext pkg1 = Inr env1
    \<and> iv env1 = [0, 1, 2, 3, 4, 5, 6, 7, 8, 9, 10, 11]
    \<and> encryptedData env1 = TextEncoder_encode [0x68, 0x69]
         @ [0, 1, 2, 3, 4, 5, 6, 7, 8, 9, 10, 11] @ [0, 0, 0, 0]
    \<and> unpackageCiphertext pkg2 = Inr env2
    \<and> iv env2 = [12, 13, 14, 15, 16, 17, 18, 19, 20, 21, 22, 23]
    \<and> encryptedData env2 = TextEncoder_encode [0x68, 0x69]
         @ [12, 13, 14, 15, 16, 17, 18, 19, 20, 21, 22, 23] @ [0, 0, 0, 0]
    \<and> iv env1 \<noteq> iv env2"
proof -
  let ?P = nonce_tagging_primitives
  let ?pkb = "base64_encode (map unat [1, 2, 3 :: byte])"
  let ?m = "[0x68, 0x69] :: jsstring"
  let ?s2 = "\<lambda>i. counting_source (12 + i)"
  let ?p1 = "base64_encode (map unat (kemLengthHeader 32 @ replicate 32 7
          @ map counting_source [0..<12]
          @ TextEncoder_encode ?m @ map counting_source [0..<12] @ replicate 4 0))"
  let ?p2 = "base64_encode (map unat (kemLengthHeader 32 @ replicate 32 7
          @ map ?s2 [0..<12] @ TextEncoder_encode ?m @ map ?s2 [0..<12] @ replicate 4 0))"
  have e1: "encryptMessage ?P ?pkb ?m (replicate 32 7) counting_source = (Inr ?p1, ?s2)"
    using encryptMessage_eq[where source = counting_source and m = ?m,
        OF tagging_encrypt toy_importKey tagging_seal]
    by (simp only: length_replicate append_assoc)
  have e2: "encryptMessage ?P ?pkb ?m (replicate 32 7) ?s2 = (Inr ?p2, \<lambda>i. ?s2 (12 + i))"
    using encryptMessage_eq[where source = ?s2 and m = ?m,
        OF tagging_encrypt toy_importKey tagging_seal]
    by (simp only: length_replicate append_assoc)
  have g: "snd (getRandomValues 12 counting_source) = ?s2"
    by (simp add: getRandomValues_def)
  have upt12: "[0..<12] = [0, 1, 2, 3, 4, 5, 6, 7, 8, 9, 10, 11]"
    by (simp add: upt_rec)
  have v1: "map counting_source [0..<12] = [0, 1, 2, 3, 4, 5, 6, 7, 8, 9, 10, 11]"
    unfolding upt12 by (simp add: counting_source_def)
  have v2: "map ?s2 [0..<12] = [12, 13, 14, 15, 16, 17, 18, 19, 20, 21, 22, 23]"
    unfolding upt12 by (simp add: counting_source_def)
  have "\<exists>pk ct1 secret1 ct2 secret2 env1 env2.
      base64ToArray ?pkb = Inr pk
    \<and> mceliece_encrypt ?P pk (replicate 32 7) = Inr (ct1, secret1)
    \<and> aes_gcm_encrypt ?P secret1 (map counting_source [0..<12]) (TextEncoder_encode ?m)
        = Inr (encryptedData env1)
    \<and> unpackageCiphertext ?p1 = Inr env1 \<and> kemCiphertext env1 = ct1
    \<and> iv env1 = map counting_source [0..<12]
    \<and> mceliece_encrypt ?P pk (replicate 32 7) = Inr (ct2, secret2)
    \<and> aes_gcm_encrypt ?P secret2 (map ?s2 [0..<12]) (TextEncoder_encode ?m)
        = Inr (encryptedData env2)
    \<and> unpackageCiphertext ?p2 = Inr env2 \<and> kemCiphertext env2 = ct2
    \<and> iv env2 = map ?s2 [0..<12]
    \<and> (map counting_source [0..<12] \<noteq> map ?s2 [0..<12] \<longrightarrow> iv env1 \<noteq> iv env2)
    \<and> ?s2 = (\<lambda>i. counting_source (12 + i))
    \<and> (?s2 = ?s2 \<longrightarrow> iv env2 = map counting_source [12..<24])"
    by (rule nonce_is_fresh_draw[OF _ e1 e2]) (erule tagging_kem_size)
  then obtain secret1 secret2 env1 env2 where
    u: "unpackageCiphertext ?p1 = Inr env1" "iv env1 = map counting_source [0..<12]"
      "aes_gcm_encrypt ?P secret1 (map counting_source [0..<12]) (TextEncoder_encode ?m)
        = Inr (encryptedData env1)"
    "unpackageCiphertext ?p2 = Inr env2" "iv env2 = map ?s2 [0..<12]"
      "aes_gcm_encrypt ?P secret2 (map ?s2 [0..<12]) (TextEncoder_encode ?m)
        = Inr (encryptedData env2)"
    by (elim exE conjE)
  have r4: "replicate 4 (0::byte) = [0, 0, 0, 0]" by (simp add: numeral_eq_Suc)
  from u(3) have d1: "encryptedData env1 = TextEncoder_encode ?m
         @ [0, 1, 2, 3, 4, 5, 6, 7, 8, 9, 10, 11] @ [0, 0, 0, 0]"
    unfolding tagging_seal v1 r4 by simp
  from u(6) have d2: "encryptedData env2 = TextEncoder_encode ?m
         @ [12, 13, 14, 15, 16, 17, 18, 19, 20, 21, 22, 23] @ [0, 0, 0, 0]"
    unfolding tagging_seal v2 r4 by simp
  show ?thesis
    apply (rule exI[of _ ?p1], rule exI[of _ ?p2], rule exI[of _ env1], rule exI[of _ env2])
    unfolding g e1 e2 fst_conv using u(1,2,4,5) d1 d2 unfolding v1 v2 by simp
qed

section \<open>The base64 text of a byte array\<close>

lemma char_sextet_None_iff: "char_sextet c = None \<longleftrightarrow> \<not> in_alphabet c"
  by (simp add: char_sextet_def index_of_None_iff in_alphabet_def)

lemma base64ToArray_fails_iff:
  "base64ToArray s = Inl InvalidCharacterError \<longleftrightarrow>
     (let d = strip_padding (filter (\<lambda>c. \<not> ascii_whitespace c) s)
      in length d mod 4 = 1 \<or> list_ex (\<lambda>c. \<not> in_alphabet c) d)"
  by (auto simp: base64ToArray_def bindE_def atob_def forgiving_base64_decode_def Let_def
      char_sextet_None_iff)

lemma in_set_strip_padding:
  assumes "c \<in> set d" "c \<noteq> 0x3D"
  shows "c \<in> set (strip_padding d)"
proof -
  have keep: "c \<in> set (butlast xs)" if "c \<in> set xs" "xs \<noteq> []" "last xs = 0x3D" for xs
  proof -
    from that(2) have "xs = butlast xs @ [last xs]" by simp
    then have "set xs = set (butlast xs) \<union> {last xs}"
      by (metis Un_insert_right list.simps(15) set_append sup_bot.right_neutral list.set(1))
    with that assms(2) show ?thesis by auto
  qed
  show ?thesis
    using assms(1) keep[of d] keep[of "butlast d"]
    by (auto simp: strip_padding_def)
qed

lemma invalid_character_rejected:
  assumes "list_ex (\<lambda>c. \<not> in_alphabet c \<and> c \<noteq> 0x3D \<and> \<not> ascii_whitespace c) s"
  shows "base64ToArray s = Inl InvalidCharacterError"
proof -
  from assms obtain c where c: "c \<in> set s" "\<not> in_alphabet c" "c \<noteq> 0x3D" "\<not> ascii_whitespace c"
    by (auto simp: list_ex_iff)
  then have "c \<in> set (strip_padding (filter (\<lambda>c. \<not> ascii_whitespace c) s))"
    by (intro in_set_strip_padding) auto
  with c(2) show ?thesis
    unfolding base64ToArray_fails_iff Let_def list_ex_iff by blast
qed

lemma standard_base64_encode:
  "\<forall>n\<in>set ns. n < 256 \<Longrightarrow> standard_base64 (base64_encode ns)"
proof (induction ns rule: base64_encode.induct)
  case (1 a b c rest)
  then have lt: "a < 256" "b < 256" "c < 256" by auto
  note s = sextet_bounds[OF lt, THEN sextet_char_in_alphabet, folded in_alphabet_def]
  from 1 have r: "standard_base64 (base64_encode rest)" by simp
  show ?case
  proof (cases "base64_encode rest")
    case Nil
    then show ?thesis using s by simp
  next
    case (Cons x xs)
    then show ?thesis using s r by simp
  qed
next
  case (2 a b)
  then have lt: "a < 256" "b < 256" "(0::nat) < 256" by auto
  note s = sextet_bounds[OF lt, THEN sextet_char_in_alphabet, folded in_alphabet_def]
  show ?case using s by simp
next
  case (3 a)
  then have lt: "a < 256" "(0::nat) < 256" "(0::nat) < 256" by auto
  note s = sextet_bounds[OF lt, THEN sextet_char_in_alphabet, folded in_alphabet_def]
  show ?case using s by simp
next
  case 4
  show ?case by simp
qed

lemma no_whitespace_base64_encode:
  assumes "\<forall>n\<in>set ns. n < 256"
  shows "\<not> list_ex ascii_whitespace (base64_encode ns)"
proof -
  from filter_ws_base64_encode[OF assms]
  have "\<forall>c\<in>set (base64_encode ns). \<not> ascii_whitespace c"
    by (metis filter_id_conv)
  then show ?thesis by (simp add: list_ex_iff)
qed

lemma standard_base64_shape:
  "standard_base64 s \<Longrightarrow>
     \<exists>body pad. s = body @ pad \<and> (\<forall>c\<in>set body. in_alphabet c)
       \<and> (pad = [] \<or> pad = [0x3D] \<or> pad = [0x3D, 0x3D]) \<and> length s mod 4 = 0"
proof (induction s rule: standard_base64.induct)
  case 1
  show ?case by simp
next
  case (2 a b c d)
  from 2 have ab: "in_alphabet a" "in_alphabet b" by simp_all
  from 2 consider "c = 0x3D" "d = 0x3D" | "in_alphabet c" "d = 0x3D"
    | "in_alphabet c" "in_alphabet d"
    by (simp only: standard_base64.simps) blast
  then show ?case
  proof cases
    case 1
    with ab show ?thesis by (intro exI[of _ "[a, b]"] exI[of _ "[0x3D, 0x3D]"]) simp
  next
    case 2
    with ab show ?thesis by (intro exI[of _ "[a, b, c]"] exI[of _ "[0x3D]"]) simp
  next
    case 3
    with ab show ?thesis by (intro exI[of _ "[a, b, c, d]"] exI[of _ "[]"]) simp
  qed
next
  case (3 a b c d v va)
  from 3(2) have h: "in_alphabet a" "in_alphabet b" "in_alphabet c" "in_alphabet d"
    and st: "standard_base64 (v # va)" by (simp_all only: standard_base64.simps)
  from 3(1)[OF st] obtain body pad where
    r1: "v # va = body @ pad" and r2: "\<forall>c\<in>set body. in_alphabet c"
      and r3: "pad = [] \<or> pad = [0x3D] \<or> pad = [0x3D, 0x3D]"
      and r4: "length (v # va) mod 4 = 0"
    by (elim exE conjE)
  have e: "a # b # c # d # v # va = (a # b # c # d # body) @ pad"
    by (simp only: r1 append_Cons)
  have al: "\<forall>x\<in>set (a # b # c # d # body). in_alphabet x" using h r2 by simp
  have "length (a # b # c # d # v # va) = length (v # va) + 4" by simp
  then have len: "length (a # b # c # d # v # va) mod 4 = 0" using r4 by (simp only: mod_add_self2)
  show ?case
    by (rule exI[of _ "a # b # c # d # body"], rule exI[of _ pad]) (intro conjI e al r3 len)
next
  case "4_1"
  then show ?case by simp
next
  case "4_2"
  then show ?case by simp
next
  case "4_3"
  then show ?case by simp
qed

lemma strip_padding_body_pad:
  assumes b: "\<forall>c\<in>set body. in_alphabet c"
    and p: "pad = [] \<or> pad = [0x3D] \<or> pad = [0x3D, 0x3D]"
    and l: "length (body @ pad) mod 4 = 0"
  shows "strip_padding (body @ pad) = body \<and> length body mod 4 \<noteq> 1"
proof -
  have np: "\<not> in_alphabet 0x3D" using pad_not_in_alphabet by (simp add: in_alphabet_def)
  have lastb: "last body \<noteq> 0x3D" if "body \<noteq> []"
    using that b np by (metis last_in_set)
  from p consider "pad = []" | "pad = [0x3D]" | "pad = [0x3D, 0x3D]" by (elim disjE)
  then show ?thesis
  proof cases
    case 1
    show ?thesis
    proof (cases "body = []")
      case True
      with 1 show ?thesis by (simp add: strip_padding_def)
    next
      case False
      with 1 l lastb[OF False] show ?thesis by (simp add: strip_padding_def)
    qed
  next
    case 2
    from l 2 have m: "Suc (length body) mod 4 = 0" by simp
    then have m3: "length body mod 4 \<noteq> 1" by (simp add: mod_Suc split: if_splits)
    from m have ne: "body \<noteq> []" by auto
    have "strip_padding (body @ [0x3D]) = body"
      using m ne lastb[OF ne] by (simp add: strip_padding_def)
    with 2 m3 show ?thesis by simp
  next
    case 3
    from l 3 have m: "Suc (Suc (length body)) mod 4 = 0" by simp
    then have m3: "length body mod 4 \<noteq> 1" by (simp add: mod_Suc split: if_splits)
    have bl: "butlast (body @ [0x3D, 0x3D]) = body @ [0x3D::16 word]"
      by (simp add: butlast_append)
    have "strip_padding (body @ [0x3D, 0x3D]) = body"
      unfolding strip_padding_def bl using m by simp
    with 3 m3 show ?thesis by simp
  qed
qed

lemma standard_base64_decoded:
  assumes "standard_base64 s"
  shows "\<exists>a. base64ToArray s = Inr a"
proof -
  from standard_base64_shape[OF assms] obtain body pad where
    s: "s = body @ pad" and b: "\<forall>c\<in>set body. in_alphabet c"
      and p: "pad = [] \<or> pad = [0x3D] \<or> pad = [0x3D, 0x3D]" and l: "length s mod 4 = 0"
    by (elim exE conjE)
  have wb: "\<forall>c\<in>set body. \<not> ascii_whitespace c"
    using b whitespace_not_in_alphabet by (simp add: in_alphabet_def)
  have wp: "\<forall>c\<in>set pad. \<not> ascii_whitespace c"
    using p pad_not_ws by (elim disjE) simp_all
  have f: "filter (\<lambda>c. \<not> ascii_whitespace c) (body @ pad) = body @ pad"
    using wb wp by simp
  from l have l': "length (body @ pad) mod 4 = 0" unfolding s .
  note sp = strip_padding_body_pad[OF b p l']
  have "base64ToArray (body @ pad) \<noteq> Inl InvalidCharacterError"
    unfolding base64ToArray_fails_iff f Let_def using sp b by (simp add: list_ex_iff)
  then show ?thesis
    unfolding s using base64ToArray_error[of "body @ pad"]
    by (cases "base64ToArray (body @ pad)") auto
qed

lemma decryptMessage_traced_no_call_iff:
  "fst (decryptMessage_traced P k c) = [] \<longleftrightarrow>
     (\<exists>e. base64ToArray c = Inl e) \<or> (\<exists>e. base64ToArray k = Inl e)"
  by (auto simp: decryptMessage_traced_def unpackageCiphertext_def bindE_def Let_def
      split: sum.splits)

lemma decryptMessage_traced_decoding_error:
  assumes "base64ToArray c = Inl e \<or> base64ToArray k = Inl e"
  shows "decryptMessage_traced P k c = ([], Inl InvalidCharacterError)"
  using assms base64ToArray_error
  by (auto simp: decryptMessage_traced_def unpackageCiphertext_def bindE_def Let_def
      split: sum.splits)

lemma encryptMessage_decoding_error:
  assumes "base64ToArray pkb = Inl e"
  shows "encryptMessage P pkb m coins source = (Inl InvalidCharacterError, source)"
  using assms base64ToArray_error[OF assms] by (simp add: encryptMessage_def)

text \<open>
  Claim C8. \<^verbatim>\<open>base64ToArray\<close> of \<^verbatim>\<open>arrayToBase64\<close> of a byte array is the array, and
  the text \<^verbatim>\<open>arrayToBase64\<close> produces is standard base64 with no white space. Decoding
  is that of \<^verbatim>\<open>atob\<close>: every standard base64 string is decoded; every string with a
  character that is neither of the alphabet, nor \<^verbatim>\<open>=\<close>, nor ASCII white space is
  rejected; a rejection is an \<open>InvalidCharacterError\<close>. When the package, the private
  key or the public key is rejected, \<^verbatim>\<open>decryptMessage\<close> and \<^verbatim>\<open>encryptMessage\<close> fail with
  this error before any call to a cryptographic primitive and before the nonce is drawn;
  and a \<^verbatim>\<open>decryptMessage\<close> that made no cryptographic call was given a text that
  \<^verbatim>\<open>base64ToArray\<close> rejects, so every other failure comes after the first call.
\<close>

theorem base64_transport_lossless:
  "bindE (arrayToBase64 a) base64ToArray = Inr a
   \<and> (\<exists>t. arrayToBase64 a = Inr t \<and> standard_base64 t \<and> \<not> list_ex ascii_whitespace t)
   \<and> (standard_base64 s \<longrightarrow> (\<exists>b. base64ToArray s = Inr b))
   \<and> (list_ex (\<lambda>c. \<not> in_alphabet c \<and> c \<noteq> 0x3D \<and> \<not> ascii_whitespace c) s
        \<longrightarrow> base64ToArray s = Inl InvalidCharacterError)
   \<and> (base64ToArray s = Inl e \<longrightarrow>
        e = InvalidCharacterError
      \<and> decryptMessage_traced P k s = ([], Inl InvalidCharacterError)
      \<and> decryptMessage_traced P s c = ([], Inl InvalidCharacterError)
      \<and> encryptMessage P s m coins source = (Inl InvalidCharacterError, source))
   \<and> (fst (decryptMessage_traced P k c) = [] \<longleftrightarrow>
        (\<exists>e. base64ToArray c = Inl e) \<or> (\<exists>e. base64ToArray k = Inl e))"
proof -
  have lt: "\<forall>n\<in>set (map unat a). n < 256" by (simp add: unat_byte_less)
  have t: "\<exists>t. arrayToBase64 a = Inr t \<and> standard_base64 t \<and> \<not> list_ex ascii_whitespace t"
    using standard_base64_encode[OF lt] no_whitespace_base64_encode[OF lt]
    by (simp add: arrayToBase64_eq)
  have f: "e = InvalidCharacterError
      \<and> decryptMessage_traced P k s = ([], Inl InvalidCharacterError)
      \<and> decryptMessage_traced P s c = ([], Inl InvalidCharacterError)
      \<and> encryptMessage P s m coins source = (Inl InvalidCharacterError, source)"
    if "base64ToArray s = Inl e"
    using that base64ToArray_error[OF that]
      decryptMessage_traced_decoding_error[of s e k P]
      decryptMessage_traced_decoding_error[of c e s P]
      encryptMessage_decoding_error[OF that, of P m coins source]
    by simp
  show ?thesis
    using base64ToArray_arrayToBase64[of a] t standard_base64_decoded[of s]
      invalid_character_rejected[of s] f decryptMessage_traced_no_call_iff[of P k c]
    by (intro conjI impI) simp_all
qed

theorem base64_transport_lossless_witness:
  "bindE (arrayToBase64 [1, 2, 3]) base64ToArray = Inr [1, 2, 3]
   \<and> (\<exists>b. base64ToArray (map of_char ''QUJD'') = Inr b)
   \<and> base64ToArray (map of_char ''QUJD*'') = Inl InvalidCharacterError
   \<and> decryptMessage_traced toy_primitives (map of_char ''AQID'') (map of_char ''QUJD*'')
       = ([], Inl InvalidCharacterError)
   \<and> decryptMessage_traced toy_primitives (map of_char ''QUJD*'') (map of_char ''AAAA8A=='')
       = ([], Inl InvalidCharacterError)
   \<and> encryptMessage toy_primitives (map of_char ''QUJD*'') [0x68, 0x69] (replicate 32 7)
        counting_source = (Inl InvalidCharacterError, counting_source)
   \<and> fst (decryptMessage_traced toy_primitives (map of_char ''AQID'') (map of_char ''QUJD*'')) = []"
proof -
  have good: "standard_base64 (map of_char ''QUJD'')"
    by (simp add: in_alphabet_def base64_alphabet_def)
  have bad: "list_ex (\<lambda>c. \<not> in_alphabet c \<and> c \<noteq> 0x3D \<and> \<not> ascii_whitespace c)
      (map of_char ''QUJD*'')"
    by (simp add: in_alphabet_def base64_alphabet_def ascii_whitespace_def)
  note g = base64_transport_lossless[of "[1, 2, 3]" "map of_char ''QUJD''"]
  note b = base64_transport_lossless[of "[1, 2, 3]" "map of_char ''QUJD*''" InvalidCharacterError
      toy_primitives "map of_char ''AQID''" "map of_char ''AAAA8A==''" "[0x68, 0x69]"
      "replicate 32 7" counting_source]
  note n = base64_transport_lossless[of "[1, 2, 3]" "map of_char ''QUJD*''" InvalidCharacterError
      toy_primitives "map of_char ''AQID''" "map of_char ''QUJD*''"]
  from g good have 1: "\<exists>b. base64ToArray (map of_char ''QUJD'') = Inr b" by blast
  from b bad have 2: "base64ToArray (map of_char ''QUJD*'') = Inl InvalidCharacterError" by blast
  from b 2 have 3:
    "decryptMessage_traced toy_primitives (map of_char ''AQID'') (map of_char ''QUJD*'')
       = ([], Inl InvalidCharacterError)"
    "decryptMessage_traced toy_primitives (map of_char ''QUJD*'') (map of_char ''AAAA8A=='')
       = ([], Inl InvalidCharacterError)"
    "encryptMessage toy_primitives (map of_char ''QUJD*'') [0x68, 0x69] (replicate 32 7)
        counting_source = (Inl InvalidCharacterError, counting_source)"
    by blast+
  from n 2 have 4:
    "fst (decryptMessage_traced toy_primitives (map of_char ''AQID'') (map of_char ''QUJD*'')) = []"
    by blast
  from b have 0: "bindE (arrayToBase64 [1, 2, 3]) base64ToArray = Inr [1, 2, 3]" by blast
  from 0 1 2 3 4 show ?thesis by (intro conjI)
qed

text \<open>
  Claim C8, on invalid text that is decoded. \<^verbatim>\<open>atob\<close> is forgiving: the text \<^verbatim>\<open>QQ\<close>,
  which lacks its padding, and the text \<^verbatim>\<open>QUJD\<close>, line feed, \<^verbatim>\<open>REVG\<close>, which is
  wrapped, are not standard base64, and \<^verbatim>\<open>base64ToArray\<close> decodes them all the same.
\<close>

theorem invalid_base64_decoded:
  "\<not> standard_base64 (map of_char ''QQ'')
   \<and> base64ToArray (map of_char ''QQ'') = Inr [0x41]
   \<and> \<not> standard_base64 (map of_char ''QUJD'' @ [0x0A] @ map of_char ''REVG'')
   \<and> base64ToArray (map of_char ''QUJD'' @ [0x0A] @ map of_char ''REVG'')
       = Inr [0x41, 0x42, 0x43, 0x44, 0x45, 0x46]"
  by (simp add: in_alphabet_def base64ToArray_def atob_def forgiving_base64_decode_def
      strip_padding_def ascii_whitespace_def char_sextet_def base64_alphabet_def bindE_def)

section \<open>The UTF-8 decoder\<close>

lemma dec_end: "utf8_decoder cp seen needed lo up [] = (if needed \<noteq> 0 then [0xFFFD] else [])"
  by simp

lemma dec_ascii:
  "unat b \<le> 0x7F \<Longrightarrow>
   utf8_decoder cp seen 0 lo up (b # bs) = unat b # utf8_decoder cp seen 0 lo up bs"
  by (simp add: Let_def)

lemma dec_lead2:
  "0xC2 \<le> unat b \<Longrightarrow> unat b \<le> 0xDF \<Longrightarrow>
   utf8_decoder cp seen 0 lo up (b # bs) = utf8_decoder (unat b mod 32) seen 1 lo up bs"
  by (simp add: Let_def)

lemma dec_lead3:
  "0xE0 \<le> unat b \<Longrightarrow> unat b \<le> 0xEF \<Longrightarrow>
   utf8_decoder cp seen 0 lo up (b # bs) =
     utf8_decoder (unat b mod 16) seen 2 (if unat b = 0xE0 then 0xA0 else lo)
       (if unat b = 0xED then 0x9F else up) bs"
  by (simp add: Let_def)

lemma dec_lead4:
  "0xF0 \<le> unat b \<Longrightarrow> unat b \<le> 0xF4 \<Longrightarrow>
   utf8_decoder cp seen 0 lo up (b # bs) =
     utf8_decoder (unat b mod 8) seen 3 (if unat b = 0xF0 then 0x90 else lo)
       (if unat b = 0xF4 then 0x8F else up) bs"
  by (simp add: Let_def)

lemma dec_bad_lead:
  "0x7F < unat b \<Longrightarrow> unat b < 0xC2 \<or> 0xF4 < unat b \<Longrightarrow>
   utf8_decoder cp seen 0 lo up (b # bs) = 0xFFFD # utf8_decoder cp seen 0 lo up bs"
  by (auto simp add: Let_def)

lemma dec_cont_bad:
  "needed \<noteq> 0 \<Longrightarrow> \<not> (lo \<le> unat b \<and> unat b \<le> up) \<Longrightarrow>
   utf8_decoder cp seen needed lo up (b # bs) = 0xFFFD # utf8_decoder 0 0 0 0x80 0xBF (b # bs)"
  by (simp add: Let_def)

lemma dec_cont_more:
  "needed \<noteq> 0 \<Longrightarrow> lo \<le> unat b \<Longrightarrow> unat b \<le> up \<Longrightarrow> seen + 1 \<noteq> needed \<Longrightarrow>
   utf8_decoder cp seen needed lo up (b # bs) =
     utf8_decoder (cp * 64 + unat b mod 64) (seen + 1) needed 0x80 0xBF bs"
  by (simp add: Let_def)

lemma dec_cont_last:
  "needed \<noteq> 0 \<Longrightarrow> lo \<le> unat b \<Longrightarrow> unat b \<le> up \<Longrightarrow> seen + 1 = needed \<Longrightarrow>
   utf8_decoder cp seen needed lo up (b # bs) =
     (cp * 64 + unat b mod 64) # utf8_decoder 0 0 0 0x80 0xBF bs"
  by (simp add: Let_def)

declare utf8_decoder.simps [simp del]

subsection \<open>Decoding what the encoder wrote\<close>

lemma unat_of_nat_byte: "n < 256 \<Longrightarrow> unat (of_nat n :: byte) = n"
  by (simp add: unat_of_nat)

lemma decode_encoded_1:
  assumes "c \<le> 0x7F"
  shows "utf8_decoder 0 0 0 0x80 0xBF (map of_nat (utf8_encode_scalar c) @ bs)
     = c # utf8_decoder 0 0 0 0x80 0xBF bs"
proof -
  have u: "unat (of_nat c :: byte) = c" using assms by (simp add: unat_of_nat_byte)
  show ?thesis using assms by (simp add: utf8_encode_scalar_def dec_ascii u)
qed

lemma decode_encoded_2:
  assumes "0x7F < c" "c \<le> 0x7FF"
  shows "utf8_decoder 0 0 0 0x80 0xBF (map of_nat (utf8_encode_scalar c) @ bs)
     = c # utf8_decoder 0 0 0 0x80 0xBF bs"
proof -
  define q where "q = c div 64"
  define r where "r = c mod 64"
  define b0 :: byte where "b0 = of_nat (0xC0 + q)"
  define b1 :: byte where "b1 = of_nat (0x80 + r)"
  have "128 div 64 \<le> c div 64" using assms(1) by (intro div_le_mono) simp
  moreover have "c div 64 < 32" using assms by (intro less_mult_imp_div_less) simp
  ultimately have q: "2 \<le> q" "q < 32" by (simp_all add: q_def)
  have r: "r < 64" by (simp add: r_def)
  have c: "q * 64 + r = c" by (simp add: q_def r_def)
  have u0: "unat b0 = 0xC0 + q" unfolding b0_def using q by (intro unat_of_nat_byte) simp
  have u1: "unat b1 = 0x80 + r" unfolding b1_def using r by (intro unat_of_nat_byte) simp
  have e: "map of_nat (utf8_encode_scalar c) = [b0, b1]"
    using assms by (simp add: utf8_encode_scalar_def q_def r_def b0_def b1_def)
  have m0: "(0xC0 + q) mod 32 = q" using q by (simp add: mod_add_left_eq[symmetric])
  have m1: "(0x80 + r) mod 64 = r" using r by (simp add: mod_add_left_eq[symmetric])
  have "utf8_decoder 0 0 0 0x80 0xBF (b0 # b1 # bs) = utf8_decoder q 0 1 0x80 0xBF (b1 # bs)"
    using q by (subst dec_lead2) (simp_all add: u0 m0)
  also have "\<dots> = (q * 64 + r) # utf8_decoder 0 0 0 0x80 0xBF bs"
    using r by (subst dec_cont_last) (simp_all add: u1 m1)
  finally show ?thesis using c by (simp add: e)
qed

lemma decode_encoded_3:
  assumes "0x7FF < c" "c \<le> 0xFFFF" "\<not> (0xD800 \<le> c \<and> c \<le> 0xDFFF)"
  shows "utf8_decoder 0 0 0 0x80 0xBF (map of_nat (utf8_encode_scalar c) @ bs)
     = c # utf8_decoder 0 0 0 0x80 0xBF bs"
proof -
  define q where "q = c div 4096"
  define m where "m = c div 64 mod 64"
  define r where "r = c mod 64"
  define b0 :: byte where "b0 = of_nat (0xE0 + q)"
  define b1 :: byte where "b1 = of_nat (0x80 + m)"
  define b2 :: byte where "b2 = of_nat (0x80 + r)"
  have q: "q < 16" using assms unfolding q_def by (intro less_mult_imp_div_less) simp
  have m: "m < 64" by (simp add: m_def)
  have r: "r < 64" by (simp add: r_def)
  have d: "c div 64 = q * 64 + m"
    unfolding q_def m_def using div_mult2_eq[of c 64 64] by simp
  have c: "(q * 64 + m) * 64 + r = c" unfolding d[symmetric] r_def by simp
  have "2048 div 64 \<le> c div 64" using assms(1) by (intro div_le_mono) simp
  then have lo: "q = 0 \<Longrightarrow> 32 \<le> m" using d by simp
  have "c < 0xD800 \<or> 0xDFFF < c" using assms(3) by linarith
  then have "c div 64 \<le> 0xD7FF div 64 \<or> 0xE000 div 64 \<le> c div 64"
    by (auto intro!: div_le_mono)
  then have hi: "q = 13 \<Longrightarrow> m < 32" using d m by auto
  have u0: "unat b0 = 0xE0 + q" unfolding b0_def using q by (intro unat_of_nat_byte) simp
  have u1: "unat b1 = 0x80 + m" unfolding b1_def using m by (intro unat_of_nat_byte) simp
  have u2: "unat b2 = 0x80 + r" unfolding b2_def using r by (intro unat_of_nat_byte) simp
  have e: "map of_nat (utf8_encode_scalar c) = [b0, b1, b2]"
    using assms by (simp add: utf8_encode_scalar_def q_def m_def r_def b0_def b1_def b2_def)
  have m0: "(0xE0 + q) mod 16 = q" using q by (simp add: mod_add_left_eq[symmetric])
  have m1: "(0x80 + m) mod 64 = m" using m by (simp add: mod_add_left_eq[symmetric])
  have m2: "(0x80 + r) mod 64 = r" using r by (simp add: mod_add_left_eq[symmetric])
  have "utf8_decoder 0 0 0 0x80 0xBF (b0 # b1 # b2 # bs)
      = utf8_decoder q 0 2 (if q = 0 then 0xA0 else 0x80) (if q = 13 then 0x9F else 0xBF)
          (b1 # b2 # bs)"
    using q by (subst dec_lead3) (simp_all add: u0 m0)
  also have "\<dots> = utf8_decoder (q * 64 + m) 1 2 0x80 0xBF (b2 # bs)"
    using m lo hi by (subst dec_cont_more) (auto simp add: u1 m1)
  also have "\<dots> = ((q * 64 + m) * 64 + r) # utf8_decoder 0 0 0 0x80 0xBF bs"
    using r by (subst dec_cont_last) (simp_all add: u2 m2)
  finally show ?thesis using c by (simp add: e)
qed

lemma decode_encoded_4:
  assumes "0xFFFF < c" "c < 0x110000"
  shows "utf8_decoder 0 0 0 0x80 0xBF (map of_nat (utf8_encode_scalar c) @ bs)
     = c # utf8_decoder 0 0 0 0x80 0xBF bs"
proof -
  define q where "q = c div 262144"
  define l where "l = c div 4096 mod 64"
  define m where "m = c div 64 mod 64"
  define r where "r = c mod 64"
  define b0 :: byte where "b0 = of_nat (0xF0 + q)"
  define b1 :: byte where "b1 = of_nat (0x80 + l)"
  define b2 :: byte where "b2 = of_nat (0x80 + m)"
  define b3 :: byte where "b3 = of_nat (0x80 + r)"
  have q: "q < 5" using assms unfolding q_def by (intro less_mult_imp_div_less) simp
  have l: "l < 64" by (simp add: l_def)
  have m: "m < 64" by (simp add: m_def)
  have r: "r < 64" by (simp add: r_def)
  have d1: "c div 64 = c div 4096 * 64 + m"
    unfolding m_def using div_mult2_eq[of c 64 64] by simp
  have d2: "c div 4096 = q * 64 + l"
    unfolding q_def l_def using div_mult2_eq[of c 4096 64] by simp
  have "c = c div 64 * 64 + r" unfolding r_def by simp
  then have c: "((q * 64 + l) * 64 + m) * 64 + r = c" unfolding d1 d2 by simp
  have "65536 div 4096 \<le> c div 4096" using assms(1) by (intro div_le_mono) simp
  then have lo: "q = 0 \<Longrightarrow> 16 \<le> l" using d2 by simp
  have "c div 4096 \<le> 0x10FFFF div 4096" using assms(2) by (intro div_le_mono) simp
  then have hi: "q = 4 \<Longrightarrow> l < 16" using d2 by simp
  have u0: "unat b0 = 0xF0 + q" unfolding b0_def using q by (intro unat_of_nat_byte) simp
  have u1: "unat b1 = 0x80 + l" unfolding b1_def using l by (intro unat_of_nat_byte) simp
  have u2: "unat b2 = 0x80 + m" unfolding b2_def using m by (intro unat_of_nat_byte) simp
  have u3: "unat b3 = 0x80 + r" unfolding b3_def using r by (intro unat_of_nat_byte) simp
  have e: "map of_nat (utf8_encode_scalar c) = [b0, b1, b2, b3]"
    using assms
    by (simp add: utf8_encode_scalar_def q_def l_def m_def r_def b0_def b1_def b2_def b3_def)
  have m0: "(0xF0 + q) mod 8 = q" using q by (simp add: mod_add_left_eq[symmetric])
  have m1: "(0x80 + l) mod 64 = l" using l by (simp add: mod_add_left_eq[symmetric])
  have m2: "(0x80 + m) mod 64 = m" using m by (simp add: mod_add_left_eq[symmetric])
  have m3: "(0x80 + r) mod 64 = r" using r by (simp add: mod_add_left_eq[symmetric])
  have "utf8_decoder 0 0 0 0x80 0xBF (b0 # b1 # b2 # b3 # bs)
      = utf8_decoder q 0 3 (if q = 0 then 0x90 else 0x80) (if q = 4 then 0x8F else 0xBF)
          (b1 # b2 # b3 # bs)"
    using q by (subst dec_lead4) (simp_all add: u0 m0)
  also have "\<dots> = utf8_decoder (q * 64 + l) 1 3 0x80 0xBF (b2 # b3 # bs)"
    using l lo hi by (subst dec_cont_more) (auto simp add: u1 m1)
  also have "\<dots> = utf8_decoder ((q * 64 + l) * 64 + m) 2 3 0x80 0xBF (b3 # bs)"
    using m by (subst dec_cont_more) (simp_all add: u2 m2 numeral_2_eq_2)
  also have "\<dots> = (((q * 64 + l) * 64 + m) * 64 + r) # utf8_decoder 0 0 0 0x80 0xBF bs"
    using r by (subst dec_cont_last) (simp_all add: u3 m3)
  finally show ?thesis using c by (simp add: e)
qed

lemma decode_encoded_scalar:
  assumes "scalar_value c"
  shows "utf8_decoder 0 0 0 0x80 0xBF (map of_nat (utf8_encode_scalar c) @ bs)
     = c # utf8_decoder 0 0 0 0x80 0xBF bs"
proof -
  consider "c \<le> 0x7F" | "0x7F < c" "c \<le> 0x7FF" | "0x7FF < c" "c \<le> 0xFFFF" | "0xFFFF < c"
    by linarith
  then show ?thesis
  proof cases
    case 1 then show ?thesis by (rule decode_encoded_1)
  next
    case 2 then show ?thesis by (rule decode_encoded_2)
  next
    case 3 with assms show ?thesis by (intro decode_encoded_3) (auto simp: scalar_value_def)
  next
    case 4 with assms show ?thesis by (intro decode_encoded_4) (auto simp: scalar_value_def)
  qed
qed

lemma decode_encoded_scalars:
  "list_all scalar_value cs \<Longrightarrow>
   utf8_decoder 0 0 0 0x80 0xBF (map of_nat (concat (map utf8_encode_scalar cs))) = cs"
  by (induction cs) (simp_all add: dec_end decode_encoded_scalar)

lemma unat_unit_less: "unat (u :: 16 word) < 65536"
  using unsigned_less[of u, where 'a=nat] by simp

lemma scalar_lone_unit: "scalar_value (lone_unit u)"
  using unat_unit_less[of u]
  by (auto simp: lone_unit_def scalar_value_def is_high_surrogate_def is_low_surrogate_def)

lemma scalar_pair:
  assumes "is_high_surrogate u" "is_low_surrogate v"
  shows "scalar_value (0x10000 + (unat u - 0xD800) * 0x400 + (unat v - 0xDC00))"
  using assms
  by (auto simp: scalar_value_def is_high_surrogate_def is_low_surrogate_def)

lemma scalars_utf16_scalars: "list_all scalar_value (utf16_scalars s)"
  by (induction s rule: utf16_scalars.induct) (simp_all add: scalar_lone_unit scalar_pair)

lemma decode_encode_text:
  "TextDecoder_decode (TextEncoder_encode s)
     = concat (map utf16_units (strip_bom (utf16_scalars s)))"
  by (simp add: TextDecoder_decode_def TextEncoder_encode_def decode_encoded_scalars
      scalars_utf16_scalars)

lemma units_lone:
  "\<not> is_high_surrogate u \<Longrightarrow> \<not> is_low_surrogate u \<Longrightarrow> utf16_units (lone_unit u) = [u]"
  using unat_unit_less[of u] by (simp add: utf16_units_def lone_unit_def)

lemma units_pair:
  assumes "is_high_surrogate u" "is_low_surrogate v"
  shows "utf16_units (0x10000 + (unat u - 0xD800) * 0x400 + (unat v - 0xDC00)) = [u, v]"
proof -
  define h where "h = unat u - 0xD800"
  define l where "l = unat v - 0xDC00"
  have l: "l < 0x400" using assms(2) by (auto simp: l_def is_low_surrogate_def)
  have hu: "0xD800 + h = unat u" using assms(1) by (auto simp: h_def is_high_surrogate_def)
  have lv: "0xDC00 + l = unat v" using assms(2) by (auto simp: l_def is_low_surrogate_def)
  have d: "(h * 0x400 + l) div 0x400 = h" using l by simp
  have m: "(h * 0x400 + l) mod 0x400 = l" using l by simp
  have "utf16_units (0x10000 + h * 0x400 + l)
      = [of_nat (0xD800 + (h * 0x400 + l) div 0x400), of_nat (0xDC00 + (h * 0x400 + l) mod 0x400)]"
    by (simp add: utf16_units_def)
  also have "\<dots> = [of_nat (unat u), of_nat (unat v)]"
    unfolding d m hu lv ..
  finally show ?thesis by (simp add: h_def l_def)
qed

lemma units_utf16_scalars:
  "well_formed_utf16 s \<Longrightarrow> concat (map utf16_units (utf16_scalars s)) = s"
proof (induction s rule: utf16_scalars.induct)
  case 1
  then show ?case by simp
next
  case (2 u)
  then show ?case by (simp add: units_lone)
next
  case (3 u v rest)
  show ?case
  proof (cases "is_high_surrogate u")
    case True
    with 3 show ?thesis by (simp add: units_pair)
  next
    case False
    with 3 show ?thesis by (simp add: units_lone)
  qed
qed

lemma lone_unit_bom: "lone_unit u = 0xFEFF \<longleftrightarrow> u = 0xFEFF"
proof
  assume "lone_unit u = 0xFEFF"
  then have "unat u = 0xFEFF" by (auto simp: lone_unit_def split: if_splits)
  then have "of_nat (unat u) = (of_nat 0xFEFF :: 16 word)" by simp
  then show "u = 0xFEFF" by simp
next
  assume "u = 0xFEFF"
  then show "lone_unit u = 0xFEFF"
    by (simp add: lone_unit_def is_high_surrogate_def is_low_surrogate_def)
qed

lemma strip_bom_utf16_scalars:
  "s = [] \<or> hd s \<noteq> 0xFEFF \<Longrightarrow> strip_bom (utf16_scalars s) = utf16_scalars s"
  by (induction s rule: utf16_scalars.induct)
     (auto simp: strip_bom_def lone_unit_bom)

lemma text_round_trip:
  assumes "well_formed_utf16 s" "s = [] \<or> hd s \<noteq> 0xFEFF"
  shows "TextDecoder_decode (TextEncoder_encode s) = s"
  by (simp add: decode_encode_text strip_bom_utf16_scalars[OF assms(2)] units_utf16_scalars[OF assms(1)])

lemma text_bom_dropped: "TextDecoder_decode (TextEncoder_encode [0xFEFF]) = []"
  by (simp add: decode_encode_text strip_bom_def lone_unit_def is_high_surrogate_def
      is_low_surrogate_def)

lemma text_lone_surrogate_replaced: "TextDecoder_decode (TextEncoder_encode [0xD800]) = [0xFFFD]"
  by (simp add: decode_encode_text strip_bom_def lone_unit_def is_high_surrogate_def
      is_low_surrogate_def utf16_units_def)

subsection \<open>Decoding bytes that are not UTF-8\<close>

lemma replacement_at_end:
  "needed \<noteq> 0 \<Longrightarrow> 0xFFFD \<in> set (utf8_decoder cp seen needed lo up [])"
  by (simp add: dec_end)

lemma continuation_in_range:
  assumes "needed \<noteq> 0" "0xFFFD \<notin> set (utf8_decoder cp seen needed lo up (b # r))"
  shows "lo \<le> unat b \<and> unat b \<le> up"
proof (rule ccontr)
  assume "\<not> (lo \<le> unat b \<and> unat b \<le> up)"
  from dec_cont_bad[OF assms(1) this] assms(2) show False by simp
qed

lemma sequence_nonempty:
  assumes "needed \<noteq> 0" "0xFFFD \<notin> set (utf8_decoder cp seen needed lo up r)"
  obtains b r' where "r = b # r'" "lo \<le> unat b" "unat b \<le> up"
proof (cases r)
  case Nil
  with assms replacement_at_end show ?thesis by blast
next
  case (Cons b r')
  with assms continuation_in_range[of needed cp seen lo up b r'] that show ?thesis by blast
qed

lemma valid_ascii: "unat b \<le> 0x7F \<Longrightarrow> valid_utf8 (b # r) = valid_utf8 r"
  by (simp add: Let_def)

lemma valid_lead2:
  "0xC2 \<le> unat b \<Longrightarrow> unat b \<le> 0xDF \<Longrightarrow> 0x80 \<le> unat b1 \<Longrightarrow> unat b1 \<le> 0xBF \<Longrightarrow>
   valid_utf8 (b # b1 # r) = valid_utf8 r"
  by (simp add: Let_def in_range_def)

lemma valid_lead3:
  "0xE0 \<le> unat b \<Longrightarrow> unat b \<le> 0xEF \<Longrightarrow>
   (if unat b = 0xE0 then 0xA0 else 0x80) \<le> unat b1 \<Longrightarrow>
   unat b1 \<le> (if unat b = 0xED then 0x9F else 0xBF) \<Longrightarrow>
   0x80 \<le> unat b2 \<Longrightarrow> unat b2 \<le> 0xBF \<Longrightarrow>
   valid_utf8 (b # b1 # b2 # r) = valid_utf8 r"
  by (auto simp add: Let_def in_range_def second_lower_def second_upper_def)

lemma valid_lead4:
  "0xF0 \<le> unat b \<Longrightarrow> unat b \<le> 0xF4 \<Longrightarrow>
   (if unat b = 0xF0 then 0x90 else 0x80) \<le> unat b1 \<Longrightarrow>
   unat b1 \<le> (if unat b = 0xF4 then 0x8F else 0xBF) \<Longrightarrow>
   0x80 \<le> unat b2 \<Longrightarrow> unat b2 \<le> 0xBF \<Longrightarrow> 0x80 \<le> unat b3 \<Longrightarrow> unat b3 \<le> 0xBF \<Longrightarrow>
   valid_utf8 (b # b1 # b2 # b3 # r) = valid_utf8 r"
  by (auto simp add: Let_def in_range_def second_lower_def second_upper_def)

lemma no_replacement_valid:
  "0xFFFD \<notin> set (utf8_decoder 0 0 0 0x80 0xBF bs) \<Longrightarrow> valid_utf8 bs"
proof (induction bs rule: length_induct)
  case (1 bs)
  note IH = "1.IH"[rule_format]
  note clean = "1.prems"
  show ?case
  proof (cases bs)
    case Nil
    then show ?thesis by simp
  next
    case (Cons b r)
    consider (ascii) "unat b \<le> 0x7F"
      | (bad) "0x7F < unat b" "unat b < 0xC2 \<or> 0xF4 < unat b"
      | (two) "0xC2 \<le> unat b" "unat b \<le> 0xDF"
      | (three) "0xE0 \<le> unat b" "unat b \<le> 0xEF"
      | (four) "0xF0 \<le> unat b" "unat b \<le> 0xF4"
      by linarith
    then show ?thesis
    proof cases
      case ascii
      from clean have "0xFFFD \<notin> set (utf8_decoder 0 0 0 0x80 0xBF r)"
        unfolding Cons dec_ascii[OF ascii] by simp
      then have "valid_utf8 r" by (intro IH) (simp_all add: Cons)
      then show ?thesis by (simp only: Cons valid_ascii[OF ascii])
    next
      case bad
      from clean show ?thesis unfolding Cons dec_bad_lead[OF bad] by simp
    next
      case two
      from clean have s0: "0xFFFD \<notin> set (utf8_decoder (unat b mod 32) 0 1 0x80 0xBF r)"
        unfolding Cons dec_lead2[OF two] .
      then obtain b1 r1 where r: "r = b1 # r1" and b1: "0x80 \<le> unat b1" "unat b1 \<le> 0xBF"
        by (rule sequence_nonempty[rotated]) simp_all
      from s0 have "0xFFFD \<notin> set (utf8_decoder 0 0 0 0x80 0xBF r1)"
        unfolding r by (subst (asm) dec_cont_last) (use b1 in simp_all)
      then have "valid_utf8 r1" by (intro IH) (simp_all add: Cons r)
      then show ?thesis by (simp only: Cons r valid_lead2[OF two b1])
    next
      case three
      let ?lo = "if unat b = 0xE0 then 0xA0 else 0x80"
      let ?up = "if unat b = 0xED then 0x9F else 0xBF"
      from clean have s0: "0xFFFD \<notin> set (utf8_decoder (unat b mod 16) 0 2 ?lo ?up r)"
        unfolding Cons dec_lead3[OF three] .
      then obtain b1 r1 where r: "r = b1 # r1" and b1: "?lo \<le> unat b1" "unat b1 \<le> ?up"
        by (rule sequence_nonempty[rotated]) simp_all
      from s0 have s1: "0xFFFD \<notin> set (utf8_decoder (unat b mod 16 * 64 + unat b1 mod 64) 1 2 0x80 0xBF r1)"
        unfolding r by (subst (asm) dec_cont_more) (use b1 in simp_all)
      then obtain b2 r2 where r1: "r1 = b2 # r2" and b2: "0x80 \<le> unat b2" "unat b2 \<le> 0xBF"
        by (rule sequence_nonempty[rotated]) simp_all
      from s1 have "0xFFFD \<notin> set (utf8_decoder 0 0 0 0x80 0xBF r2)"
        unfolding r1 by (subst (asm) dec_cont_last) (use b2 in simp_all)
      then have "valid_utf8 r2" by (intro IH) (simp_all add: Cons r r1)
      then show ?thesis by (simp only: Cons r r1 valid_lead3[OF three b1 b2])
    next
      case four
      let ?lo = "if unat b = 0xF0 then 0x90 else 0x80"
      let ?up = "if unat b = 0xF4 then 0x8F else 0xBF"
      from clean have s0: "0xFFFD \<notin> set (utf8_decoder (unat b mod 8) 0 3 ?lo ?up r)"
        unfolding Cons dec_lead4[OF four] .
      then obtain b1 r1 where r: "r = b1 # r1" and b1: "?lo \<le> unat b1" "unat b1 \<le> ?up"
        by (rule sequence_nonempty[rotated]) simp_all
      from s0 have s1: "0xFFFD \<notin> set (utf8_decoder (unat b mod 8 * 64 + unat b1 mod 64) 1 3 0x80 0xBF r1)"
        unfolding r by (subst (asm) dec_cont_more) (use b1 in simp_all)
      then obtain b2 r2 where r1: "r1 = b2 # r2" and b2: "0x80 \<le> unat b2" "unat b2 \<le> 0xBF"
        by (rule sequence_nonempty[rotated]) simp_all
      from s1 have s2: "0xFFFD \<notin> set (utf8_decoder ((unat b mod 8 * 64 + unat b1 mod 64) * 64
            + unat b2 mod 64) 2 3 0x80 0xBF r2)"
        unfolding r1 by (subst (asm) dec_cont_more) (use b2 in \<open>simp_all add: numeral_2_eq_2\<close>)
      then obtain b3 r3 where r2: "r2 = b3 # r3" and b3: "0x80 \<le> unat b3" "unat b3 \<le> 0xBF"
        by (rule sequence_nonempty[rotated]) simp_all
      from s2 have "0xFFFD \<notin> set (utf8_decoder 0 0 0 0x80 0xBF r3)"
        unfolding r2 by (subst (asm) dec_cont_last) (use b3 in simp_all)
      then have "valid_utf8 r3" by (intro IH) (simp_all add: Cons r r1 r2)
      then show ?thesis by (simp only: Cons r r1 r2 valid_lead4[OF four b1 b2 b3])
    qed
  qed
qed

lemma replacement_survives_strip_bom: "0xFFFD \<in> set cps \<Longrightarrow> 0xFFFD \<in> set (strip_bom cps)"
  by (cases cps) (auto simp: strip_bom_def)

lemma replacement_unit: "0xFFFD \<in> set cps \<Longrightarrow> 0xFFFD \<in> set (concat (map utf16_units cps))"
  by (auto simp: utf16_units_def intro!: bexI[of _ "0xFFFD"])

lemma invalid_utf8_replaced:
  "\<not> valid_utf8 data \<Longrightarrow> 0xFFFD \<in> set (TextDecoder_decode data)"
  unfolding TextDecoder_decode_def
  using no_replacement_valid[of data]
  by (intro replacement_unit replacement_survives_strip_bom) blast

lemma text_decode_FF: "TextDecoder_decode [0xFF] = [0xFFFD]"
  by (simp add: TextDecoder_decode_def dec_bad_lead dec_end strip_bom_def utf16_units_def)

section \<open>Text decoding at the end of decryption\<close>

text \<open>
  Claim C10. Once unpacking, decoding the private key, decapsulation, key import and the
  AES-GCM decryption have succeeded, \<^verbatim>\<open>decryptMessage\<close> returns a string: the text
  decoding of the decrypted bytes, which has no failing branch. When the bytes are not
  well-formed UTF-8, the string contains U+FFFD.
\<close>

theorem decrypt_never_fails_in_text_decoding:
  assumes "unpackageCiphertext ciphertextPackage = Inr env"
    and "base64ToArray privateKeyBase64 = Inr sk"
    and "mceliece_decrypt P (kemCiphertext env) sk = Inr secret"
    and "importKey secret = Inr aesKey"
    and "aes_gcm_decrypt P aesKey (iv env) (encryptedData env) = Inr decryptedData"
  shows "decryptMessage P privateKeyBase64 ciphertextPackage = Inr (TextDecoder_decode decryptedData)
    \<and> (\<not> valid_utf8 decryptedData \<longrightarrow> 0xFFFD \<in> set (TextDecoder_decode decryptedData))"
  using decryptMessage_success[OF assms] invalid_utf8_replaced by blast

theorem decrypt_never_fails_in_text_decoding_witness:
  "decryptMessage toy_primitives (map of_char ''AQID'')
      (base64_encode (map unat (kemLengthHeader (length (replicate 32 (7::byte)))
          @ replicate 32 7 @ replicate 12 9 @ (0xFF # replicate 16 0))))
     = Inr [0xFFFD]
   \<and> \<not> valid_utf8 [0xFF] \<and> 0xFFFD \<in> set (TextDecoder_decode [0xFF])"
proof -
  let ?c = "base64_encode (map unat (kemLengthHeader (length (replicate 32 (7::byte)))
          @ replicate 32 7 @ replicate 12 9 @ (0xFF # replicate 16 0)))"
  let ?env = "\<lparr> kemCiphertext = replicate 32 (7::byte), iv = replicate 12 9,
      encryptedData = 0xFF # replicate 16 0 \<rparr>"
  have u: "unpackageCiphertext ?c = Inr ?env"
    by (rule unpackageCiphertext_base64_encode) simp_all
  have k: "base64ToArray (map of_char ''AQID'') = Inr [1, 2, 3]" by (rule key_example_decode)
  have d: "mceliece_decrypt toy_primitives (kemCiphertext ?env) [1, 2, 3] = Inr (replicate 32 7)"
    by (simp add: toy_primitives_def)
  have i: "importKey (replicate 32 7) = Inr (replicate 32 7)" by (simp add: importKey_def)
  have a: "aes_gcm_decrypt toy_primitives (replicate 32 7) (iv ?env) (encryptedData ?env) = Inr [0xFF]"
    by (simp add: toy_primitives_def)
  have v: "\<not> valid_utf8 [0xFF]" by (simp add: Let_def)
  from decrypt_never_fails_in_text_decoding[OF u k d i a] v show ?thesis
    by (simp add: text_decode_FF)
qed

section \<open>Encryption followed by decryption\<close>

text \<open>
  Claim C1, as the program has it. Take a key pair that \<^verbatim>\<open>generateKeyPair\<close> returned, an
  encapsulation for its public key whose secret the decapsulation with its private key
  recovers (the KEM is correct, its ciphertext is shorter than \<open>2^31\<close> bytes and its
  secret is an AES key), and an AES-GCM that opens what it sealed. Then for every
  plaintext string with no unpaired surrogate that does not begin with U+FEFF, the empty
  string included, \<^verbatim>\<open>encryptMessage\<close> returns a package and \<^verbatim>\<open>decryptMessage\<close> of that
  package returns the plaintext.
\<close>

theorem encrypt_decrypt_round_trip:
  assumes gk: "generateKeyPair P seed = Inr keys"
    and kp: "mceliece_keyPair P seed = Inr (sk, pk)"
    and enc: "mceliece_encrypt P pk coins = Inr (ct, secret)"
    and dec: "mceliece_decrypt P ct sk = Inr secret"
    and size: "length ct < 2 ^ 31"
    and key: "importKey secret = Inr secret"
    and seal: "aes_gcm_encrypt P secret (map source [0..<12]) (TextEncoder_encode m) = Inr sealed"
    and opn: "aes_gcm_decrypt P secret (map source [0..<12]) sealed = Inr (TextEncoder_encode m)"
    and wf: "well_formed_utf16 m"
    and nobom: "m = [] \<or> hd m \<noteq> 0xFEFF"
  shows "\<exists>pkg source'. encryptMessage P (publicKey keys) m coins source = (Inr pkg, source')
      \<and> decryptMessage P (privateKey keys) pkg = Inr m"
proof -
  from gk generateKeyPair_eq[OF kp]
  have keys: "privateKey keys = base64_encode (map unat sk)"
    "publicKey keys = base64_encode (map unat pk)" by auto
  from encryptMessage_eq[OF enc key seal] decrypt_of_encrypt[OF kp enc dec size key seal opn]
  show ?thesis
    unfolding keys text_round_trip[OF wf nobom] by blast
qed

theorem encrypt_decrypt_round_trip_witness:
  "\<exists>pkg source'.
     encryptMessage toy_primitives (base64_encode (map unat [1, 2, 3 :: byte])) [0x68, 0x69]
       (replicate 32 7) counting_source = (Inr pkg, source')
   \<and> decryptMessage toy_primitives (base64_encode (map unat [1, 2, 3 :: byte])) pkg = Inr [0x68, 0x69]"
proof -
  have wf: "well_formed_utf16 [0x68, 0x69]"
    by (simp add: is_high_surrogate_def is_low_surrogate_def)
  have nb: "[0x68, 0x69] = [] \<or> hd [0x68, 0x69 :: 16 word] \<noteq> 0xFEFF" by simp
  have sz: "length (replicate 32 (7 :: byte)) < 2 ^ 31" by simp
  from encrypt_decrypt_round_trip[where source = counting_source,
      OF generateKeyPair_eq[OF toy_keyPair] toy_keyPair toy_encrypt
      toy_decrypt sz toy_importKey toy_seal toy_open wf nb]
  show ?thesis by simp
qed

text \<open>
  The plaintext that is the single character U+FEFF is decrypted to the empty string:
  \<^verbatim>\<open>TextDecoder\<close> drops a leading byte order mark. The plaintext that is the unpaired
  surrogate U+D800 is decrypted to U+FFFD: \<^verbatim>\<open>TextEncoder\<close> replaces it.
\<close>

theorem round_trip_drops_byte_order_mark:
  "generateKeyPair toy_primitives [1, 2, 3]
     = Inr \<lparr> privateKey = base64_encode (map unat [1, 2, 3 :: byte]),
             publicKey = base64_encode (map unat [1, 2, 3 :: byte]),
             privateKeySize = 3, publicKeySize = 3 \<rparr>
   \<and> fst (encryptMessage toy_primitives (base64_encode (map unat [1, 2, 3 :: byte])) [0xFEFF]
         (replicate 32 7) counting_source)
     = Inr (base64_encode (map unat (kemLengthHeader 32 @ replicate 32 7
              @ map counting_source [0..<12] @ TextEncoder_encode [0xFEFF] @ replicate 16 0)))
   \<and> decryptMessage toy_primitives (base64_encode (map unat [1, 2, 3 :: byte]))
        (base64_encode (map unat (kemLengthHeader 32 @ replicate 32 7
              @ map counting_source [0..<12] @ TextEncoder_encode [0xFEFF] @ replicate 16 0)))
     = Inr []
   \<and> fst (encryptMessage toy_primitives (base64_encode (map unat [1, 2, 3 :: byte])) [0xD800]
         (replicate 32 7) counting_source)
     = Inr (base64_encode (map unat (kemLengthHeader 32 @ replicate 32 7
              @ map counting_source [0..<12] @ TextEncoder_encode [0xD800] @ replicate 16 0)))
   \<and> decryptMessage toy_primitives (base64_encode (map unat [1, 2, 3 :: byte]))
        (base64_encode (map unat (kemLengthHeader 32 @ replicate 32 7
              @ map counting_source [0..<12] @ TextEncoder_encode [0xD800] @ replicate 16 0)))
     = Inr [0xFFFD]
   \<and> decryptMessage toy_primitives (base64_encode (map unat [1, 2, 3 :: byte]))
        (base64_encode (map unat (kemLengthHeader 32 @ replicate 32 7
              @ map counting_source [0..<12] @ TextEncoder_encode [0xFEFF] @ replicate 16 0)))
     \<noteq> Inr [0xFEFF]
   \<and> decryptMessage toy_primitives (base64_encode (map unat [1, 2, 3 :: byte]))
        (base64_encode (map unat (kemLengthHeader 32 @ replicate 32 7
              @ map counting_source [0..<12] @ TextEncoder_encode [0xD800] @ replicate 16 0)))
     \<noteq> Inr [0xD800]"
proof -
  have sz: "length (replicate 32 (7 :: byte)) < 2 ^ 31" by simp
  have g: "generateKeyPair toy_primitives [1, 2, 3]
     = Inr \<lparr> privateKey = base64_encode (map unat [1, 2, 3 :: byte]),
             publicKey = base64_encode (map unat [1, 2, 3 :: byte]),
             privateKeySize = 3, publicKeySize = 3 \<rparr>"
    using generateKeyPair_eq[OF toy_keyPair] by simp
  have e: "fst (encryptMessage toy_primitives (base64_encode (map unat [1, 2, 3 :: byte])) m
         (replicate 32 7) counting_source)
     = Inr (base64_encode (map unat (kemLengthHeader 32 @ replicate 32 7
              @ map counting_source [0..<12] @ TextEncoder_encode m @ replicate 16 0)))" for m
    using encryptMessage_eq[where source = counting_source and m = m, OF toy_encrypt toy_importKey toy_seal]
    by (simp only: fst_conv length_replicate append_assoc)
  have d: "decryptMessage toy_primitives (base64_encode (map unat [1, 2, 3 :: byte]))
        (base64_encode (map unat (kemLengthHeader 32 @ replicate 32 7
              @ map counting_source [0..<12] @ TextEncoder_encode m @ replicate 16 0)))
     = Inr (TextDecoder_decode (TextEncoder_encode m))" for m
    using decrypt_of_encrypt[where source = counting_source and m = m,
        OF toy_keyPair toy_encrypt toy_decrypt sz toy_importKey toy_seal toy_open]
    by (simp only: length_replicate append_assoc)
  show ?thesis
    unfolding g e d text_bom_dropped text_lone_surrogate_replaced by simp
qed

section \<open>Packing followed by unpacking\<close>

text \<open>
  Claim C2. For every KEM ciphertext shorter than \<open>2^31\<close> bytes, every 12-byte nonce
  and every sealed data, \<^verbatim>\<open>packageCiphertext\<close> returns a package, and
  \<^verbatim>\<open>unpackageCiphertext\<close> of that package returns the three components unchanged, byte
  for byte. These are all the KEM ciphertexts the program can pack: the base64 text of a
  longer one would have more than \<open>2^31\<close> code units, which is beyond the longest string
  of the engines that run the program (\<^verbatim>\<open>arrayToBase64\<close> throws there), and the library's
  KEM ciphertext has 240 bytes.
\<close>

theorem envelope_round_trip:
  assumes "length k < 2 ^ 31" "length n = 12"
  shows "\<exists>pkg. packageCiphertext k n e = Inr pkg
     \<and> unpackageCiphertext pkg = Inr \<lparr> kemCiphertext = k, iv = n, encryptedData = e \<rparr>"
  using packageCiphertext_eq[OF assms(2), of k e] unpackageCiphertext_base64_encode[OF assms, of e]
  by simp

theorem envelope_round_trip_witness:
  "\<exists>pkg. packageCiphertext [7, 7] [1, 2, 3, 4, 5, 6, 7, 8, 9, 10, 11, 12] [0xde, 0xad] = Inr pkg
     \<and> unpackageCiphertext pkg
       = Inr \<lparr> kemCiphertext = [7, 7], iv = [1, 2, 3, 4, 5, 6, 7, 8, 9, 10, 11, 12],
               encryptedData = [0xde, 0xad] \<rparr>"
  by (rule envelope_round_trip) simp_all

section \<open>Further properties of the package\<close>

text \<open>
  The first four bytes of the array that \<^verbatim>\<open>packageCiphertext\<close> builds are the length of
  the KEM ciphertext, modulo \<open>2^32\<close>, as an unsigned big-endian integer.
\<close>

theorem package_length_field_unsigned:
  assumes "length n = 12"
  shows "\<exists>combined. combinedBytes k n e = Inr combined
     \<and> be32 (take 4 combined) = length k mod 2 ^ 32"
  using combinedBytes_layout[OF assms, of k e] be32_kemLengthHeader[of "length k"]
  by (simp add: length_kemLengthHeader)

theorem package_length_field_unsigned_witness:
  "\<exists>combined. combinedBytes (replicate 240 0) [1, 2, 3, 4, 5, 6, 7, 8, 9, 10, 11, 12] [0xde] = Inr combined
     \<and> be32 (take 4 combined) = 240"
  using package_length_field_unsigned[of "[1, 2, 3, 4, 5, 6, 7, 8, 9, 10, 11, 12]" "replicate 240 0" "[0xde]"]
  by simp

end
